theory Spec2Isabelle
  imports Main
begin

section \<open>The value token tree\<close>

text \<open>
  The rule \<open>function-calc-no-unspaced-operator\<close> works on the node tree that the value
  parser builds for one declaration value. A node carries its type, its text (\<open>value\<close>)
  and its start offset in the value string (\<open>sourceIndex\<close>); a function node also carries
  its children (\<open>nodes\<close>). The rule reads the node types \<open>word\<close>, \<open>space\<close> and
  \<open>function\<close> only; every other type (string, div, comment, unicode-range) is \<open>Other\<close>.
\<close>

datatype node =
    Word string nat
  | Space string nat
  | Function string nat "node list"
  | Other string nat

fun isWord :: "node \<Rightarrow> bool" where
  "isWord (Word v si) = True"
| "isWord n = False"

fun isSpace :: "node \<Rightarrow> bool" where
  "isSpace (Space v si) = True"
| "isSpace n = False"

fun isFunction :: "node \<Rightarrow> bool" where
  "isFunction (Function v si ns) = True"
| "isFunction n = False"

fun nodeValue :: "node \<Rightarrow> string" where
  "nodeValue (Word v si) = v"
| "nodeValue (Space v si) = v"
| "nodeValue (Function v si ns) = v"
| "nodeValue (Other v si) = v"

fun sourceIndex :: "node \<Rightarrow> nat" where
  "sourceIndex (Word v si) = si"
| "sourceIndex (Space v si) = si"
| "sourceIndex (Function v si ns) = si"
| "sourceIndex (Other v si) = si"

text \<open>The assignment \<open>node.value = v\<close>.\<close>

fun setValue :: "node \<Rightarrow> string \<Rightarrow> node" where
  "setValue (Word v si) w = Word w si"
| "setValue (Space v si) w = Space w si"
| "setValue (Function v si ns) w = Function w si ns"
| "setValue (Other v si) w = Other w si"

text \<open>
  Array reads that JavaScript answers with \<open>undefined\<close> when out of range:
  \<open>nodes[i]\<close> and \<open>nodes.at(-k)\<close>.
\<close>

definition nth_opt :: "'a list \<Rightarrow> nat \<Rightarrow> 'a option" where
  "nth_opt xs i = (if i < length xs then Some (xs ! i) else None)"

definition at_end :: "'a list \<Rightarrow> nat \<Rightarrow> 'a option" where
  "at_end xs k = (if 0 < k \<and> k \<le> length xs then Some (xs ! (length xs - k)) else None)"

section \<open>Strings\<close>

text \<open>\<open>str.charAt(i)\<close>: the one-character string at \<open>i\<close>, the empty string out of range.\<close>

definition charAt :: "string \<Rightarrow> nat \<Rightarrow> string" where
  "charAt s i = (if i < length s then [s ! i] else [])"

text \<open>
  \<open>str.search(/[+-]/)\<close> and \<open>str.search(/(\n|\r\n)/)\<close>: the index of the first match,
  \<open>None\<close> for JavaScript's \<open>-1\<close>.
\<close>

fun search_operator :: "string \<Rightarrow> nat option" where
  "search_operator [] = None"
| "search_operator (c # cs) =
     (if c = CHR ''+'' \<or> c = CHR ''-'' then Some 0
      else map_option Suc (search_operator cs))"

fun search_newline :: "string \<Rightarrow> nat option" where
  "search_newline [] = None"
| "search_newline (c # cs) =
     (if c = CHR 0x0A \<or> (c = CHR 0x0D \<and> take 1 cs = [CHR 0x0A]) then Some 0
      else map_option Suc (search_newline cs))"

definition insertCharAtIndex :: "string \<Rightarrow> nat \<Rightarrow> string \<Rightarrow> string" where
  "insertCharAtIndex str i char = take i str @ char @ drop i str"

text \<open>
  \<open>str.trim()\<close> removes white space and line terminators from both ends; of the
  characters below 256 these are tab, line feed, vertical tab, form feed, carriage
  return, space and the no-break space.
\<close>

definition isTrimmed :: "char \<Rightarrow> bool" where
  "isTrimmed c = (c \<in> set [CHR 0x09, CHR 0x0A, CHR 0x0B, CHR 0x0C, CHR 0x0D, CHR 0x20, CHR 0xA0])"

definition trim :: "string \<Rightarrow> string" where
  "trim s = rev (dropWhile isTrimmed (rev (dropWhile isTrimmed s)))"

section \<open>Configuration, diagnostics and the state of one declaration\<close>

text \<open>
  What the rule takes from outside: the fix flag of the run (\<open>context.fix\<close>), the offset
  of the value in the declaration (\<open>declarationValueIndex(decl)\<close>), the predicate
  \<open>isStandardSyntaxValue\<close>, the names in \<open>singleArgumentMathFunctions\<close>, the value
  parser and the serializer of its tree (\<open>parsedValue.toString()\<close>).
\<close>

record rule_context =
  context_fix :: bool
  valueIndex :: nat
  isStandardSyntaxValue :: "string \<Rightarrow> bool"
  singleArgumentMathFunctions :: "string list"
  valueParser :: "string \<Rightarrow> node list"
  toString :: "node list \<Rightarrow> string"

datatype position = Before | After

datatype message =
    ExpectedBefore string
  | ExpectedAfter string
  | ExpectedOperatorBeforeSign string

record diagnostic =
  message :: message
  index :: nat
  endIndex :: nat

text \<open>
  The variables that the checks of one declaration share: \<open>needsFix\<close> and the
  diagnostics reported so far, in the order of the calls of \<open>report\<close>.
\<close>

record decl_state =
  needsFix :: bool
  reports :: "diagnostic list"

datatype error = AssertionFailed

definition complain :: "message \<Rightarrow> nat \<Rightarrow> string \<Rightarrow> decl_state \<Rightarrow> decl_state" where
  "complain msg i operator st =
     st\<lparr>reports := reports st @ [\<lparr>message = msg, index = i, endIndex = i + length operator\<rparr>]\<rparr>"

definition OPERATORS :: "string list" where
  "OPERATORS = [''+'', ''-'']"

definition ALL_OPERATORS :: "string list" where
  "ALL_OPERATORS = OPERATORS @ [''*'', ''/'']"

fun isOperator :: "node option \<Rightarrow> string list \<Rightarrow> bool" where
  "isOperator None operators = False"
| "isOperator (Some n) operators = (isWord n \<and> nodeValue n \<in> set operators)"

fun isSingleSpace :: "node option \<Rightarrow> bool" where
  "isSingleSpace None = False"
| "isSingleSpace (Some n) = (isSpace n \<and> nodeValue n = '' '')"

section \<open>The checks of one math function\<close>

text \<open>
  \<open>checkSpaceAroundOperator(operatorNode, spaceNode, position)\<close>. The space node is
  changed in place in the source; here the new space node is returned and the caller
  stores it at the place it was read from.
\<close>

definition checkSpaceAroundOperator ::
  "rule_context \<Rightarrow> node \<Rightarrow> node \<Rightarrow> position \<Rightarrow> decl_state \<Rightarrow> node \<times> decl_state" where
  "checkSpaceAroundOperator ctx operatorNode spaceNode pos st =
     (let indexOfFirstNewLine = search_newline (nodeValue spaceNode) in
      if indexOfFirstNewLine = Some 0 then (spaceNode, st)
      else if context_fix ctx then
        (setValue spaceNode
           (case indexOfFirstNewLine of
              None \<Rightarrow> '' ''
            | Some i \<Rightarrow> drop i (nodeValue spaceNode)),
         st\<lparr>needsFix := True\<rparr>)
      else
        (let operator = nodeValue operatorNode;
             operatorSourceIndex = sourceIndex operatorNode;
             msg = (if pos = Before then ExpectedBefore operator else ExpectedAfter operator)
         in (spaceNode, complain msg (valueIndex ctx + operatorSourceIndex) operator st)))"

text \<open>
  One round of the loop \<open>for (const [nodeIndex, operatorNode] of nodes.entries())\<close>,
  on the children, the flag \<open>foundOperatorNode\<close> and the state. \<open>nodes[nodeIndex - 1]\<close>
  is \<open>undefined\<close> at index 0, \<open>nodes[nodeIndex + 1]\<close> at the last index; both are read
  before either check runs.
\<close>

definition operatorStep ::
  "rule_context \<Rightarrow> nat \<Rightarrow> node list \<times> bool \<times> decl_state \<Rightarrow> node list \<times> bool \<times> decl_state" where
  "operatorStep ctx nodeIndex acc =
     (case acc of (nodes, foundOperatorNode, st) \<Rightarrow>
        (let operatorNode = nodes ! nodeIndex in
         if \<not> isOperator (Some operatorNode) OPERATORS then (nodes, foundOperatorNode, st)
         else
           (let nodeBefore = (if nodeIndex = 0 then None else nth_opt nodes (nodeIndex - 1));
                nodeAfter = nth_opt nodes (nodeIndex + 1);
                (nodes1, st1) =
                  (case nodeBefore of
                     None \<Rightarrow> (nodes, st)
                   | Some sp \<Rightarrow>
                       if isSpace sp \<and> nodeValue sp \<noteq> '' '' then
                         (case checkSpaceAroundOperator ctx operatorNode sp Before st of
                            (sp', st') \<Rightarrow> (nodes[nodeIndex - 1 := sp'], st'))
                       else (nodes, st));
                (nodes2, st2) =
                  (case nodeAfter of
                     None \<Rightarrow> (nodes1, st1)
                   | Some sp \<Rightarrow>
                       if isSpace sp \<and> nodeValue sp \<noteq> '' '' then
                         (case checkSpaceAroundOperator ctx operatorNode sp After st1 of
                            (sp', st') \<Rightarrow> (nodes1[nodeIndex + 1 := sp'], st'))
                       else (nodes1, st1))
            in (nodes2, True, st2))))"

definition operatorLoop ::
  "rule_context \<Rightarrow> node list \<Rightarrow> decl_state \<Rightarrow> node list \<times> bool \<times> decl_state" where
  "operatorLoop ctx nodes st = fold (operatorStep ctx) [0..<length nodes] (nodes, False, st)"

text \<open>
  \<open>checkForOperatorInFirstNode(nodes)\<close>. On an empty list \<open>firstNode\<close> is \<open>undefined\<close>.

  Modelled from the spec: \<open>assert\<close> of \<open>utils/validateTypes.mjs\<close> and the type guards of
  \<open>utils/typeGuards.mjs\<close> are not among the sources. The specification has an empty
  children list, reached where a child was assumed, fail fast by the assertion; that is
  the error \<open>AssertionFailed\<close>, raised in the state reached so far.

  The result pairs the returned boolean and the children, changed in place in the source,
  with the state.
\<close>

definition checkForOperatorInFirstNode ::
  "rule_context \<Rightarrow> node list \<Rightarrow> decl_state \<Rightarrow> error \<times> decl_state + (bool \<times> node list) \<times> decl_state" where
  "checkForOperatorInFirstNode ctx nodes st =
     (case nodes of
        [] \<Rightarrow> Inl (AssertionFailed, st)
      | firstNode # rest \<Rightarrow>
          if \<not> isWord firstNode then Inr ((False, nodes), st)
          else if \<not> isStandardSyntaxValue ctx (nodeValue firstNode) then Inr ((False, nodes), st)
          else
            (case search_operator (nodeValue firstNode) of
               None \<Rightarrow> Inr ((False, nodes), st)
             | Some operatorIndex \<Rightarrow>
                 if operatorIndex = 0 then Inr ((False, nodes), st)
                 else
                   (let v = nodeValue firstNode;
                        operator = charAt v operatorIndex;
                        charBefore = charAt v (operatorIndex - 1);
                        charAfter = charAt v (operatorIndex + 1)
                    in
                    if charBefore \<noteq> [] \<and> charBefore \<noteq> '' '' \<and> charAfter \<noteq> [] \<and> charAfter \<noteq> '' '' then
                      (if context_fix ctx then
                         Inr ((True,
                               setValue firstNode
                                 (insertCharAtIndex (insertCharAtIndex v (operatorIndex + 1) '' '')
                                    operatorIndex '' '') # rest),
                              st\<lparr>needsFix := True\<rparr>)
                       else
                         Inr ((True, nodes),
                              complain (ExpectedAfter operator)
                                (valueIndex ctx + sourceIndex firstNode + operatorIndex + 1) operator
                                (complain (ExpectedBefore operator)
                                   (valueIndex ctx + sourceIndex firstNode + operatorIndex) operator st)))
                    else if charBefore \<noteq> [] \<and> charBefore \<noteq> '' '' then
                      (if context_fix ctx then
                         Inr ((True,
                               setValue firstNode (insertCharAtIndex v operatorIndex '' '') # rest),
                              st\<lparr>needsFix := True\<rparr>)
                       else
                         Inr ((True, nodes),
                              complain (ExpectedBefore operator)
                                (valueIndex ctx + sourceIndex firstNode + operatorIndex) operator st))
                    else Inr ((True, nodes), st))))"

text \<open>
  \<open>checkForOperatorInLastNode(nodes)\<close>. \<open>nodes.at(-1)\<close> is \<open>undefined\<close> on an empty list,
  which the assertion refuses as above; \<open>nodes.at(-3)\<close> and \<open>nodes.at(-2)\<close> may be
  \<open>undefined\<close>, which \<open>isOperator\<close> and \<open>isSingleSpace\<close> answer with false.
\<close>

definition checkForOperatorInLastNode ::
  "rule_context \<Rightarrow> node list \<Rightarrow> decl_state \<Rightarrow> error \<times> decl_state + (bool \<times> node list) \<times> decl_state" where
  "checkForOperatorInLastNode ctx nodes st =
     (if length nodes = 1 then Inr ((False, nodes), st)
      else
        (case at_end nodes 1 of
           None \<Rightarrow> Inl (AssertionFailed, st)
         | Some lastNode \<Rightarrow>
             if \<not> isWord lastNode then Inr ((False, nodes), st)
             else
               (case search_operator (nodeValue lastNode) of
                  None \<Rightarrow> Inr ((False, nodes), st)
                | Some operatorIndex \<Rightarrow>
                    if isOperator (at_end nodes 3) ALL_OPERATORS \<and> isSingleSpace (at_end nodes 2)
                    then Inr ((False, nodes), st)
                    else if context_fix ctx then
                      (let v1 = trim (insertCharAtIndex (nodeValue lastNode) (operatorIndex + 1) '' '');
                           v2 = trim (insertCharAtIndex v1 operatorIndex '' '')
                       in Inr ((True, nodes[length nodes - 1 := setValue lastNode v2]),
                               st\<lparr>needsFix := True\<rparr>))
                    else
                      (let operator = charAt (nodeValue lastNode) operatorIndex
                       in Inr ((True, nodes),
                               complain (ExpectedOperatorBeforeSign operator)
                                 (valueIndex ctx + sourceIndex lastNode + operatorIndex) operator st)))))"

text \<open>
  The part of the walk callback that runs on the children of a matched function: the
  loop over the standalone operators, then, when none was found,
  \<open>checkForOperatorInFirstNode(nodes) || checkForOperatorInLastNode(nodes)\<close>.
\<close>

definition checkFunction ::
  "rule_context \<Rightarrow> node list \<Rightarrow> decl_state \<Rightarrow> error \<times> decl_state + node list \<times> decl_state" where
  "checkFunction ctx nodes st =
     (case operatorLoop ctx nodes st of
        (nodes1, foundOperatorNode, st1) \<Rightarrow>
          if foundOperatorNode then Inr (nodes1, st1)
          else
            (case checkForOperatorInFirstNode ctx nodes1 st1 of
               Inl e \<Rightarrow> Inl e
             | Inr ((True, nodes2), st2) \<Rightarrow> Inr (nodes2, st2)
             | Inr ((False, nodes2), st2) \<Rightarrow>
                 (case checkForOperatorInLastNode ctx nodes2 st2 of
                    Inl e \<Rightarrow> Inl e
                  | Inr ((b, nodes3), st3) \<Rightarrow> Inr (nodes3, st3))))"

section \<open>The walk over the tree and the declaration\<close>

text \<open>
  The regular expressions built from \<open>singleArgumentMathFunctions\<close>, whose names are
  plain identifiers: \<open>alternatives\<close> joins them with a bar, so an empty set would leave
  the empty alternative. The flag \<open>i\<close> folds the case of the letters A to Z.
\<close>

definition toLower :: "char \<Rightarrow> char" where
  "toLower c =
     (let n = (of_char c :: nat) in if 65 \<le> n \<and> n \<le> 90 then char_of (n + 32) else c)"

definition alternatives :: "rule_context \<Rightarrow> string list" where
  "alternatives ctx =
     (if singleArgumentMathFunctions ctx = [] then [[]] else singleArgumentMathFunctions ctx)"

fun containsText :: "string \<Rightarrow> string \<Rightarrow> bool" where
  "containsText pat [] = (pat = [])"
| "containsText pat (c # cs) = (take (length pat) (c # cs) = pat \<or> containsText pat cs)"

definition OPERATOR_REGEX_test :: "string \<Rightarrow> bool" where
  "OPERATOR_REGEX_test s = (search_operator s \<noteq> None)"

definition FUNC_NAMES_REGEX_test :: "rule_context \<Rightarrow> string \<Rightarrow> bool" where
  "FUNC_NAMES_REGEX_test ctx s = (map toLower s \<in> set (map (map toLower) (alternatives ctx)))"

definition FUNC_CALLS_REGEX_test :: "rule_context \<Rightarrow> string \<Rightarrow> bool" where
  "FUNC_CALLS_REGEX_test ctx s =
     list_ex (\<lambda>name. containsText (map toLower (name @ ''('')) (map toLower s)) (alternatives ctx)"

text \<open>
  The callback given to \<open>parsedValue.walk\<close>: it returns at once on a node that is not
  a function with a matching name, and runs the checks on the children otherwise.
\<close>

definition callback ::
  "rule_context \<Rightarrow> node \<Rightarrow> decl_state \<Rightarrow> error \<times> decl_state + node \<times> decl_state" where
  "callback ctx n st =
     (case n of
        Function v si nodes \<Rightarrow>
          if \<not> FUNC_NAMES_REGEX_test ctx v then Inr (n, st)
          else
            (case checkFunction ctx nodes st of
               Inl e \<Rightarrow> Inl e
             | Inr (nodes', st') \<Rightarrow> Inr (Function v si nodes', st'))
      | _ \<Rightarrow> Inr (n, st))"

lemma size_setValue: "size (setValue n w) = size n"
  by (cases n) simp_all

lemma checkSpaceAroundOperator_size:
  "checkSpaceAroundOperator ctx opn sp pos st = (sp', st') \<Longrightarrow> size sp' = size sp"
  by (auto simp: checkSpaceAroundOperator_def Let_def size_setValue split: if_splits)

lemma map_size_list_update:
  "size y = size (xs ! i) \<Longrightarrow> map size (xs[i := y]) = map size xs"
  by (metis list_update_id map_update)

lemma operatorStep_size:
  "operatorStep ctx i (nodes, f, st) = (nodes', f', st') \<Longrightarrow> map size nodes' = map size nodes"
  unfolding operatorStep_def Let_def nth_opt_def
  by (auto split: if_splits option.splits prod.splits
      dest!: checkSpaceAroundOperator_size simp: map_size_list_update)

lemma fold_operatorStep_size:
  "fold (operatorStep ctx) js (nodes, f, st) = (nodes', f', st') \<Longrightarrow>
   map size nodes' = map size nodes"
proof (induction js arbitrary: nodes f st)
  case Nil
  then show ?case by simp
next
  case (Cons i js)
  obtain n1 f1 s1 where "operatorStep ctx i (nodes, f, st) = (n1, f1, s1)"
    by (cases "operatorStep ctx i (nodes, f, st)") auto
  with Cons show ?case
    by (metis fold_simps(2) operatorStep_size)
qed

lemma checkForOperatorInFirstNode_size:
  "checkForOperatorInFirstNode ctx nodes st = Inr ((b, nodes'), st') \<Longrightarrow>
   map size nodes' = map size nodes"
  unfolding checkForOperatorInFirstNode_def Let_def
  by (auto split: list.splits if_splits option.splits simp: size_setValue)

lemma checkForOperatorInLastNode_size:
  "checkForOperatorInLastNode ctx nodes st = Inr ((b, nodes'), st') \<Longrightarrow>
   map size nodes' = map size nodes"
  unfolding checkForOperatorInLastNode_def Let_def at_end_def
  by (auto split: list.splits if_splits option.splits simp: size_setValue map_size_list_update)

lemma checkFunction_size:
  "checkFunction ctx nodes st = Inr (nodes', st') \<Longrightarrow> map size nodes' = map size nodes"
  unfolding checkFunction_def operatorLoop_def
  by (auto split: prod.splits if_splits sum.splits bool.splits
      dest!: fold_operatorStep_size checkForOperatorInFirstNode_size
        checkForOperatorInLastNode_size)

lemma size_list_map_size: "map size xs = map size ys \<Longrightarrow> size_list size xs = size_list size ys"
  by (metis length_map size_list_conv_sum_list)

lemma callback_size: "callback ctx n st = Inr (n', st') \<Longrightarrow> size n' = size n"
  unfolding callback_def
  by (auto split: node.splits if_splits sum.splits dest!: checkFunction_size size_list_map_size)

text \<open>
  Modelled from the spec: \<open>walk\<close> belongs to the value parser, which is not among the
  sources. The specification has it reach every function node of the tree, at any depth
  and whatever the ancestors are; the callback sees a node before the walk descends into
  the children of that node, and the siblings follow in their order. An exception of
  the callback ends the walk.
\<close>

function walk ::
  "rule_context \<Rightarrow> node list \<Rightarrow> decl_state \<Rightarrow> error \<times> decl_state + node list \<times> decl_state" where
  "walk ctx [] st = Inr ([], st)"
| "walk ctx (n # ns) st =
     (case callback ctx n st of
        Inl e \<Rightarrow> Inl e
      | Inr (n1, st1) \<Rightarrow>
          (case
             (case n1 of
                Function v si kids \<Rightarrow>
                  (case walk ctx kids st1 of
                     Inl e \<Rightarrow> Inl e
                   | Inr (kids', st2) \<Rightarrow> Inr (Function v si kids', st2))
              | _ \<Rightarrow> Inr (n1, st1))
           of
             Inl e \<Rightarrow> Inl e
           | Inr (n2, st2) \<Rightarrow>
               (case walk ctx ns st2 of
                  Inl e \<Rightarrow> Inl e
                | Inr (ns', st3) \<Rightarrow> Inr (n2 # ns', st3))))"
  by pat_completeness auto
termination
proof (relation "measure (\<lambda>(ctx, nodes, st). size_list size nodes)")
  show "wf (measure (\<lambda>(ctx, nodes, st). size_list size nodes))"
    by simp
next
  fix ctx :: rule_context and n ns st x n1 st1 v si kids
  assume "callback ctx n st = Inr x" and "(n1, st1) = x" and "n1 = Function v si kids"
  then have "size n = Suc (size_list size kids)"
    using callback_size [of ctx n st n1 st1] by simp
  then show "((ctx, kids, st1), ctx, n # ns, st) \<in> measure (\<lambda>(ctx, nodes, st). size_list size nodes)"
    by simp
next
  fix ctx :: rule_context and n :: node and ns :: "node list" and st st2 :: decl_state
  show "((ctx, ns, st2), ctx, n # ns, st) \<in> measure (\<lambda>(ctx, nodes, st). size_list size nodes)"
    by simp
qed

text \<open>
  The body of \<open>root.walkDecls\<close> on one declaration, for valid options, from its value to
  the value it has afterwards and the diagnostics reported; an exception leaves the value
  as it was and keeps the diagnostics reported before it. The
  two tests on the text come first; the tree is serialized and written back only when
  \<open>needsFix\<close> was set.
\<close>

definition rule ::
  "rule_context \<Rightarrow> string \<Rightarrow> error \<times> diagnostic list + string \<times> diagnostic list" where
  "rule ctx declValue =
     (if \<not> OPERATOR_REGEX_test declValue then Inr (declValue, [])
      else if \<not> FUNC_CALLS_REGEX_test ctx declValue then Inr (declValue, [])
      else
        (case walk ctx (valueParser ctx declValue) \<lparr>needsFix = False, reports = []\<rparr> of
           Inl (e, st) \<Rightarrow> Inl (e, reports st)
         | Inr (parsedValue, st) \<Rightarrow>
             Inr (if needsFix st then toString ctx parsedValue else declValue, reports st)))"

section \<open>A tokenizer and a serializer\<close>

text \<open>
  Modelled from the spec: the tokenizer and the serializer are a library outside the
  sources. The specification has a word be a run of characters that are neither space
  nor punctuation, a space be a run of white space, and a function be a name, its start
  offset and its children between the parentheses; a comma is punctuation, a token of
  its own that the rule ignores. Offsets count from the start of the value. The
  general results below hold for any tokenizer and serializer; this pair serves the
  examples.
\<close>

datatype token =
    TWord string nat
  | TSpace string nat
  | TOpen nat
  | TClose nat
  | TPunct string nat

definition isWhitespace :: "char \<Rightarrow> bool" where
  "isWhitespace c = ((of_char c :: nat) \<le> 32)"

definition lex_cons :: "char \<Rightarrow> nat \<Rightarrow> token list \<Rightarrow> token list" where
  "lex_cons c pos toks =
     (if c = CHR ''('' then TOpen pos # toks
      else if c = CHR '')'' then TClose pos # toks
      else if c = CHR '','' then TPunct [c] pos # toks
      else if isWhitespace c then
        (case toks of
           TSpace s p # rest \<Rightarrow> TSpace (c # s) pos # rest
         | _ \<Rightarrow> TSpace [c] pos # toks)
      else
        (case toks of
           TWord s p # rest \<Rightarrow> TWord (c # s) pos # rest
         | _ \<Rightarrow> TWord [c] pos # toks))"

primrec lex :: "nat \<Rightarrow> string \<Rightarrow> token list" where
  "lex pos [] = []"
| "lex pos (c # cs) = lex_cons c pos (lex (Suc pos) cs)"

text \<open>
  The tree is built with a stack of the open functions: the name and offset of each, and
  the nodes of the enclosing level read before it (latest first). A function still open
  at the end of the text is closed there; a closing parenthesis with no open function is
  kept as a token of its own.
\<close>

fun build :: "token list \<Rightarrow> (string \<times> nat \<times> node list) list \<Rightarrow> node list \<Rightarrow> node list" where
  "build [] [] cur = rev cur"
| "build [] ((name, si, outer) # stack) cur = build [] stack (Function name si (rev cur) # outer)"
| "build (TWord w p # TOpen q # ts) stack cur = build ts ((w, p, cur) # stack) []"
| "build (TOpen q # ts) stack cur = build ts (([], q, cur) # stack) []"
| "build (TClose q # ts) ((name, si, outer) # stack) cur =
     build ts stack (Function name si (rev cur) # outer)"
| "build (TClose q # ts) [] cur = build ts [] (Other '')'' q # cur)"
| "build (TWord w p # ts) stack cur = build ts stack (Word w p # cur)"
| "build (TSpace s p # ts) stack cur = build ts stack (Space s p # cur)"
| "build (TPunct s p # ts) stack cur = build ts stack (Other s p # cur)"

definition tokenize :: "string \<Rightarrow> node list" where
  "tokenize s = build (lex 0 s) [] []"

fun serializeNode :: "node \<Rightarrow> string" where
  "serializeNode (Word v si) = v"
| "serializeNode (Space v si) = v"
| "serializeNode (Other v si) = v"
| "serializeNode (Function v si ns) = v @ ''('' @ concat (map serializeNode ns) @ '')''"

definition serialize :: "node list \<Rightarrow> string" where
  "serialize ns = concat (map serializeNode ns)"

text \<open>
  The configuration of the examples: a declaration such as \<open>top: calc(1px+1px)\<close>, whose
  value starts at offset 5, a set of function names that has \<open>calc\<close>, and words that
  are all standard syntax.
\<close>

definition exampleContext :: "bool \<Rightarrow> rule_context" where
  "exampleContext f =
     \<lparr>context_fix = f, valueIndex = 5, isStandardSyntaxValue = (\<lambda>v. True),
      singleArgumentMathFunctions =
        [''abs'', ''acos'', ''asin'', ''atan'', ''calc'', ''cos'', ''exp'', ''sign'', ''sin'',
         ''sqrt'', ''tan''],
      valueParser = tokenize, toString = serialize\<rparr>"

definition emptyState :: decl_state where
  "emptyState = \<lparr>needsFix = False, reports = []\<rparr>"

section \<open>Notions for stating the results\<close>

text \<open>
  A standalone operator is a word whose whole text is \<open>+\<close> or \<open>-\<close>. A space node is
  flagged when \<open>checkSpaceAroundOperator\<close> is called on it and does not return at its
  first test: its text is not one space and no line break stands at its start.
  \<open>rewriteSpace\<close> is the text that fix mode leaves in a space node next to a standalone
  operator, and \<open>sideDiag\<close> the diagnostic that check mode reports for one side of one.
\<close>

definition standalone :: "node \<Rightarrow> bool" where
  "standalone n = isOperator (Some n) OPERATORS"

definition flagged :: "node \<Rightarrow> bool" where
  "flagged n = (isSpace n \<and> nodeValue n \<noteq> '' '' \<and> search_newline (nodeValue n) \<noteq> Some 0)"

definition rewriteSpace :: "string \<Rightarrow> string" where
  "rewriteSpace v = (case search_newline v of None \<Rightarrow> '' '' | Some i \<Rightarrow> drop i v)"

definition rewriteNode :: "node \<Rightarrow> node" where
  "rewriteNode n = (if isSpace n then setValue n (rewriteSpace (nodeValue n)) else n)"

definition sideDiag :: "rule_context \<Rightarrow> node \<Rightarrow> position \<Rightarrow> diagnostic" where
  "sideDiag ctx opn pos =
     \<lparr>message = (if pos = Before then ExpectedBefore (nodeValue opn) else ExpectedAfter (nodeValue opn)),
      index = valueIndex ctx + sourceIndex opn,
      endIndex = valueIndex ctx + sourceIndex opn + length (nodeValue opn)\<rparr>"

text \<open>
  The diagnostics added between two states, the message of the trailing-sign check, and
  the condition under which the leading-sign check examines the first child: it is a
  word of standard syntax whose first \<open>+\<close> or \<open>-\<close> is not its first character.
\<close>

fun isSignMessage :: "message \<Rightarrow> bool" where
  "isSignMessage (ExpectedOperatorBeforeSign operator) = True"
| "isSignMessage m = False"

definition newReports :: "decl_state \<Rightarrow> decl_state \<Rightarrow> diagnostic list" where
  "newReports st st' = drop (length (reports st)) (reports st')"

definition firstExamined :: "rule_context \<Rightarrow> node list \<Rightarrow> bool" where
  "firstExamined ctx nodes =
     (case nodes of
        [] \<Rightarrow> False
      | firstNode # rest \<Rightarrow>
          isWord firstNode \<and> isStandardSyntaxValue ctx (nodeValue firstNode) \<and>
          (case search_operator (nodeValue firstNode) of None \<Rightarrow> False | Some i \<Rightarrow> 0 < i))"

text \<open>
  \<open>checkSide\<close> is one of the two guarded calls of \<open>checkSpaceAroundOperator\<close> in a round
  of the loop. \<open>stepDiags\<close> and \<open>loopDiags\<close> are the diagnostics that check mode reports
  in one round and in the whole loop. A child is \<open>adjacentBelow\<close> an index \<open>k\<close> when it
  stands next to a standalone operator whose index is below \<open>k\<close>; \<open>rewrittenBelow\<close> and
  \<open>flaggedBelow\<close> are the children and the part of \<open>needsFix\<close> that the first \<open>k\<close> rounds
  of the loop leave in fix mode.
\<close>

definition checkSide ::
  "rule_context \<Rightarrow> node \<Rightarrow> node option \<Rightarrow> nat \<Rightarrow> position \<Rightarrow> node list \<times> decl_state \<Rightarrow> node list \<times> decl_state" where
  "checkSide ctx opn spo j pos acc =
     (case acc of (nodes, st) \<Rightarrow>
        (case spo of
           None \<Rightarrow> (nodes, st)
         | Some sp \<Rightarrow>
             if isSpace sp \<and> nodeValue sp \<noteq> '' '' then
               (case checkSpaceAroundOperator ctx opn sp pos st of
                  (sp', st') \<Rightarrow> (nodes[j := sp'], st'))
             else (nodes, st)))"

definition stepDiags :: "rule_context \<Rightarrow> node list \<Rightarrow> nat \<Rightarrow> diagnostic list" where
  "stepDiags ctx nodes i =
     (if standalone (nodes ! i) then
        (if 0 < i \<and> flagged (nodes ! (i - 1)) then [sideDiag ctx (nodes ! i) Before] else []) @
        (if i + 1 < length nodes \<and> flagged (nodes ! (i + 1)) then [sideDiag ctx (nodes ! i) After] else [])
      else [])"

definition loopDiags :: "rule_context \<Rightarrow> node list \<Rightarrow> diagnostic list" where
  "loopDiags ctx nodes = concat (map (stepDiags ctx nodes) [0..<length nodes])"

definition adjacentBelow :: "node list \<Rightarrow> nat \<Rightarrow> nat \<Rightarrow> bool" where
  "adjacentBelow nodes k j =
     ((j + 1 < k \<and> j + 1 < length nodes \<and> standalone (nodes ! (j + 1))) \<or>
      (0 < j \<and> j - 1 < k \<and> standalone (nodes ! (j - 1))))"

definition rewrittenBelow :: "node list \<Rightarrow> nat \<Rightarrow> node list" where
  "rewrittenBelow nodes k =
     map (\<lambda>j. if adjacentBelow nodes k j then rewriteNode (nodes ! j) else nodes ! j) [0..<length nodes]"

definition flaggedBelow :: "node list \<Rightarrow> nat \<Rightarrow> bool" where
  "flaggedBelow nodes k = list_ex (\<lambda>j. adjacentBelow nodes k j \<and> flagged (nodes ! j)) [0..<length nodes]"

text \<open>
  \<open>finalState\<close> is the state in which a check ends, by a return or by an exception.
  \<open>descend\<close> is the part of one round of the walk that follows the callback.
\<close>

fun finalState :: "error \<times> decl_state + 'a \<times> decl_state \<Rightarrow> decl_state" where
  "finalState (Inl (e, st)) = st"
| "finalState (Inr (x, st)) = st"

definition descend ::
  "rule_context \<Rightarrow> node \<Rightarrow> decl_state \<Rightarrow> error \<times> decl_state + node \<times> decl_state" where
  "descend ctx n1 st1 =
     (case n1 of
        Function v si kids \<Rightarrow>
          (case walk ctx kids st1 of
             Inl e \<Rightarrow> Inl e
           | Inr (kids', st2) \<Rightarrow> Inr (Function v si kids', st2))
      | _ \<Rightarrow> Inr (n1, st1))"

definition diagnosticsOf ::
  "error \<times> diagnostic list + string \<times> diagnostic list \<Rightarrow> diagnostic list" where
  "diagnosticsOf r = (case r of Inl (e, ds) \<Rightarrow> ds | Inr (v, ds) \<Rightarrow> ds)"

text \<open>
  The children of a function are quiet when the checks, run on them in fix mode from the
  empty state, return the same children and the same state: no fix is applied and the
  assertion holds. A tree is free of sign fixes when the children of every matched
  function without a standalone operator in it, at any depth, are quiet, so that neither
  sign check applies a fix anywhere. It is settled when, in addition, no space next to a
  standalone operator of a matched function is flagged. \<open>stripIndex\<close> forgets the source
  offsets and \<open>layer\<close> the children of a node; \<open>fixedTree\<close> is the tree that a run leaves.
\<close>

definition quietChildren :: "rule_context \<Rightarrow> node list \<Rightarrow> bool" where
  "quietChildren ctx kids =
     (checkFunction (ctx\<lparr>context_fix := True\<rparr>) kids emptyState = Inr (kids, emptyState))"

fun signFixFree :: "rule_context \<Rightarrow> node \<Rightarrow> bool" where
  "signFixFree ctx (Function v si kids) =
     ((if FUNC_NAMES_REGEX_test ctx v \<and> \<not> list_ex standalone kids
       then quietChildren ctx kids else True) \<and>
      list_all (signFixFree ctx) kids)"
| "signFixFree ctx n = True"

fun settledNode :: "rule_context \<Rightarrow> node \<Rightarrow> bool" where
  "settledNode ctx (Function v si kids) =
     ((if FUNC_NAMES_REGEX_test ctx v
       then (if list_ex standalone kids then \<not> flaggedBelow kids (length kids)
             else quietChildren ctx kids)
       else True) \<and>
      list_all (settledNode ctx) kids)"
| "settledNode ctx n = True"

fun stripIndex :: "node \<Rightarrow> node" where
  "stripIndex (Word v si) = Word v 0"
| "stripIndex (Space v si) = Space v 0"
| "stripIndex (Other v si) = Other v 0"
| "stripIndex (Function v si kids) = Function v 0 (map stripIndex kids)"

fun layer :: "node \<Rightarrow> node" where
  "layer (Function v si kids) = Function v si []"
| "layer n = n"

definition fixedTree :: "rule_context \<Rightarrow> string \<Rightarrow> node list" where
  "fixedTree ctx declValue =
     (case walk ctx (valueParser ctx declValue) \<lparr>needsFix = False, reports = []\<rparr> of
        Inl e \<Rightarrow> []
      | Inr (parsedValue, st) \<Rightarrow> parsedValue)"

text \<open>
  The conditions of the two sign checks on the children: the first \<open>+\<close> or \<open>-\<close> of the
  first child has a character other than a space before it; the last child is a word
  with a \<open>+\<close> or \<open>-\<close> that the look-back does not exempt. \<open>signQuiet\<close> says that the check
  that runs meets no such sign.
\<close>

definition leadingGlued :: "node list \<Rightarrow> bool" where
  "leadingGlued kids =
     (case kids of
        [] \<Rightarrow> False
      | n # rest \<Rightarrow>
          (case search_operator (nodeValue n) of
             None \<Rightarrow> False
           | Some i \<Rightarrow> charAt (nodeValue n) (i - 1) \<noteq> [] \<and> charAt (nodeValue n) (i - 1) \<noteq> '' ''))"

definition trailingSign :: "node list \<Rightarrow> bool" where
  "trailingSign kids =
     (length kids \<noteq> 1 \<and>
      (case at_end kids 1 of
         None \<Rightarrow> False
       | Some l \<Rightarrow>
           isWord l \<and> search_operator (nodeValue l) \<noteq> None \<and>
           \<not> (isOperator (at_end kids 3) ALL_OPERATORS \<and> isSingleSpace (at_end kids 2))))"

definition signQuiet :: "rule_context \<Rightarrow> node list \<Rightarrow> bool" where
  "signQuiet ctx kids =
     (kids \<noteq> [] \<and> (if firstExamined ctx kids then \<not> leadingGlued kids else \<not> trailingSign kids))"

section \<open>Lemmas on the loop over the standalone operators\<close>

lemma operatorStep_checkSide:
  "operatorStep ctx i (nodes, f, st) =
     (if \<not> standalone (nodes ! i) then (nodes, f, st)
      else
        (\<lambda>(nodes2, st2). (nodes2, True, st2))
          (checkSide ctx (nodes ! i) (nth_opt nodes (i + 1)) (i + 1) After
            (checkSide ctx (nodes ! i) (if i = 0 then None else nth_opt nodes (i - 1)) (i - 1) Before
              (nodes, st))))"
  unfolding operatorStep_def checkSide_def standalone_def Let_def
  by (simp split: option.splits prod.splits)

lemma search_newline_drop:
  "search_newline v = Some i \<Longrightarrow> search_newline (drop i v) = Some 0"
proof (induction v arbitrary: i)
  case Nil
  then show ?case by simp
next
  case (Cons c cs)
  show ?case
  proof (cases "c = CHR 0x0A \<or> (c = CHR 0x0D \<and> take 1 cs = [CHR 0x0A])")
    case True
    with Cons.prems have "i = 0" by auto
    with True show ?thesis by auto
  next
    case False
    with Cons.prems obtain k where "search_newline cs = Some k" "i = Suc k"
      by auto
    with Cons.IH show ?thesis by simp
  qed
qed

lemma rewriteSpace_unflagged: "\<not> flagged (Space v si) \<Longrightarrow> rewriteSpace v = v"
  by (auto simp: flagged_def rewriteSpace_def)

lemma rewriteNode_unflagged: "\<not> flagged n \<Longrightarrow> rewriteNode n = n"
  by (cases n) (auto simp: rewriteNode_def dest: rewriteSpace_unflagged)

lemma not_flagged_rewriteNode: "\<not> flagged (rewriteNode n)"
  by (cases n) (auto simp: rewriteNode_def flagged_def rewriteSpace_def search_newline_drop split: option.splits)

lemma rewriteNode_idem: "rewriteNode (rewriteNode n) = rewriteNode n"
  by (simp add: rewriteNode_unflagged not_flagged_rewriteNode)

lemma checkSide_eq:
  assumes "spo = None \<or> spo = nth_opt nodes j"
  shows "checkSide ctx opn spo j pos (nodes, st) =
     (case spo of
        None \<Rightarrow> (nodes, st)
      | Some sp \<Rightarrow>
          if flagged sp then
            (if context_fix ctx then (nodes[j := rewriteNode sp], st\<lparr>needsFix := True\<rparr>)
             else (nodes, st\<lparr>reports := reports st @ [sideDiag ctx opn pos]\<rparr>))
          else (nodes, st))"
proof (cases spo)
  case None
  then show ?thesis by (simp add: checkSide_def)
next
  case (Some sp)
  with assms have "nodes[j := sp] = nodes"
    by (auto simp: nth_opt_def split: if_splits)
  with Some show ?thesis
    unfolding checkSide_def checkSpaceAroundOperator_def flagged_def rewriteNode_def
      rewriteSpace_def Let_def complain_def sideDiag_def
    by (auto split: option.splits)
qed

lemma fold_upt_invariant:
  assumes "I 0 acc" and "\<And>k a. k < n \<Longrightarrow> I k a \<Longrightarrow> I (Suc k) (f k a)"
  shows "I n (fold f [0..<n] acc)"
  using assms
proof (induction n)
  case 0
  then show ?case by simp
next
  case (Suc n)
  then have "I n (fold f [0..<n] acc)" by simp
  with Suc.prems(2) [of n] show ?case by simp
qed

subsection \<open>The loop when fix mode is off\<close>

lemma operatorStep_check:
  assumes "\<not> context_fix ctx" and "i < length nodes"
  shows "operatorStep ctx i (nodes, f, st) =
     (nodes, f \<or> standalone (nodes ! i), st\<lparr>reports := reports st @ stepDiags ctx nodes i\<rparr>)"
proof (cases "standalone (nodes ! i)")
  case False
  then show ?thesis by (simp add: operatorStep_checkSide stepDiags_def)
next
  case True
  have b: "checkSide ctx (nodes ! i) (if i = 0 then None else nth_opt nodes (i - 1)) (i - 1) Before (nodes, st) =
      (nodes, st\<lparr>reports := reports st @
         (if 0 < i \<and> flagged (nodes ! (i - 1)) then [sideDiag ctx (nodes ! i) Before] else [])\<rparr>)"
    using assms by (subst checkSide_eq) (auto simp: nth_opt_def)
  have a: "checkSide ctx (nodes ! i) (nth_opt nodes (i + 1)) (i + 1) After (nodes, s) =
      (nodes, s\<lparr>reports := reports s @
         (if i + 1 < length nodes \<and> flagged (nodes ! (i + 1)) then [sideDiag ctx (nodes ! i) After] else [])\<rparr>)" for s
    using assms by (subst checkSide_eq) (auto simp: nth_opt_def)
  show ?thesis
    unfolding operatorStep_checkSide b a using True by (simp add: stepDiags_def)
qed

lemma operatorLoop_check:
  assumes "\<not> context_fix ctx"
  shows "operatorLoop ctx nodes st =
     (nodes, list_ex standalone nodes, st\<lparr>reports := reports st @ loopDiags ctx nodes\<rparr>)"
proof -
  let ?I = "\<lambda>k acc. acc = (nodes, list_ex standalone (take k nodes),
      st\<lparr>reports := reports st @ concat (map (stepDiags ctx nodes) [0..<k])\<rparr>)"
  have "?I (length nodes) (fold (operatorStep ctx) [0..<length nodes] (nodes, False, st))"
  proof (rule fold_upt_invariant)
    show "?I 0 (nodes, False, st)" by simp
  next
    fix k a
    assume k: "k < length nodes" and a: "?I k a"
    show "?I (Suc k) (operatorStep ctx k a)"
      using k by (simp add: a operatorStep_check [OF assms k] take_Suc_conv_app_nth)
  qed
  then show ?thesis by (simp add: operatorLoop_def loopDiags_def)
qed

subsection \<open>The loop when fix mode is on\<close>

lemma decl_state_needsFix_same [simp]: "st\<lparr>needsFix := needsFix st\<rparr> = st"
  by simp

lemma list_update_in_range_cong:
  "(j < length ns \<Longrightarrow> x = y) \<Longrightarrow> ns[j := x] = ns[j := y]"
  by (cases "j < length ns") (simp_all add: list_update_beyond)

lemma checkSide_fix:
  assumes "context_fix ctx" and "spo = nth_opt ns j"
  shows "checkSide ctx opn spo j pos (ns, st) =
     (ns[j := rewriteNode (ns ! j)],
      st\<lparr>needsFix := needsFix st \<or> (j < length ns \<and> flagged (ns ! j))\<rparr>)"
proof (cases "j < length ns")
  case False
  with assms show ?thesis
    by (subst checkSide_eq) (simp_all add: nth_opt_def list_update_beyond)
next
  case True
  with assms show ?thesis
    by (subst checkSide_eq) (auto simp: nth_opt_def rewriteNode_unflagged)
qed

lemma operatorStep_fix:
  assumes "context_fix ctx" and "i < length nodes"
  shows "operatorStep ctx i (nodes, f, st) =
     (if standalone (nodes ! i) then
        ((if i = 0 then nodes else nodes[i - 1 := rewriteNode (nodes ! (i - 1))])
           [i + 1 := rewriteNode (nodes ! (i + 1))],
         True,
         st\<lparr>needsFix := needsFix st \<or> (0 < i \<and> flagged (nodes ! (i - 1))) \<or>
            (i + 1 < length nodes \<and> flagged (nodes ! (i + 1)))\<rparr>)
      else (nodes, f, st))"
proof (cases "standalone (nodes ! i)")
  case False
  then show ?thesis by (simp add: operatorStep_checkSide)
next
  case True
  let ?n1 = "if i = 0 then nodes else nodes[i - 1 := rewriteNode (nodes ! (i - 1))]"
  let ?s1 = "st\<lparr>needsFix := needsFix st \<or> (0 < i \<and> flagged (nodes ! (i - 1)))\<rparr>"
  have b: "checkSide ctx (nodes ! i) (if i = 0 then None else nth_opt nodes (i - 1)) (i - 1) Before (nodes, st) =
      (?n1, ?s1)"
  proof (cases "i = 0")
    case True
    then show ?thesis by (simp add: checkSide_def)
  next
    case False
    with assms have "i - 1 < length nodes" by simp
    with False assms(1) show ?thesis
      by (simp add: checkSide_fix)
  qed
  have n1: "?n1 ! (i + 1) = nodes ! (i + 1)" "length ?n1 = length nodes"
    by auto
  have "nth_opt nodes (i + 1) = nth_opt ?n1 (i + 1)"
    by (auto simp: nth_opt_def)
  then have a: "checkSide ctx (nodes ! i) (nth_opt nodes (i + 1)) (i + 1) After (?n1, ?s1) =
      (?n1[i + 1 := rewriteNode (nodes ! (i + 1))],
       ?s1\<lparr>needsFix := needsFix ?s1 \<or> (i + 1 < length nodes \<and> flagged (nodes ! (i + 1)))\<rparr>)"
    using assms(1) by (simp only: checkSide_fix n1)
  show ?thesis
    unfolding operatorStep_checkSide b a using True by auto
qed

lemma length_rewrittenBelow [simp]: "length (rewrittenBelow nodes k) = length nodes"
  by (simp add: rewrittenBelow_def)

lemma standalone_rewriteNode: "standalone (rewriteNode n) = standalone n"
  by (cases n) (auto simp: rewriteNode_def standalone_def)

lemma standalone_not_space: "standalone n \<Longrightarrow> rewriteNode n = n"
  by (cases n) (auto simp: rewriteNode_def standalone_def)

lemma rewrittenBelow_step:
  assumes "k < length nodes"
  shows "(if standalone (nodes ! k) then
        ((if k = 0 then rewrittenBelow nodes k
          else (rewrittenBelow nodes k)[k - 1 := rewriteNode (rewrittenBelow nodes k ! (k - 1))])
           [k + 1 := rewriteNode (rewrittenBelow nodes k ! (k + 1))])
       else rewrittenBelow nodes k) = rewrittenBelow nodes (Suc k)"
proof -
  let ?r = "rewrittenBelow nodes k"
  have len: "length ?r = length nodes" by (simp add: rewrittenBelow_def)
  have nth: "?r ! j = (if adjacentBelow nodes k j then rewriteNode (nodes ! j) else nodes ! j)"
    if "j < length nodes" for j
    using that by (simp add: rewrittenBelow_def)
  show ?thesis
  proof (intro nth_equalityI)
    show "length (if standalone (nodes ! k) then
        ((if k = 0 then ?r else ?r[k - 1 := rewriteNode (?r ! (k - 1))])
           [k + 1 := rewriteNode (?r ! (k + 1))])
       else ?r) = length (rewrittenBelow nodes (Suc k))"
      by (simp add: rewrittenBelow_def)
  next
    fix j
    assume "j < length (if standalone (nodes ! k) then
        ((if k = 0 then ?r else ?r[k - 1 := rewriteNode (?r ! (k - 1))])
           [k + 1 := rewriteNode (?r ! (k + 1))])
       else ?r)"
    then have j: "j < length nodes" by (simp add: len split: if_splits)
    have r: "rewrittenBelow nodes (Suc k) ! j =
        (if adjacentBelow nodes (Suc k) j then rewriteNode (nodes ! j) else nodes ! j)"
      using j by (simp add: rewrittenBelow_def)
    show "(if standalone (nodes ! k) then
        ((if k = 0 then ?r else ?r[k - 1 := rewriteNode (?r ! (k - 1))])
           [k + 1 := rewriteNode (?r ! (k + 1))])
       else ?r) ! j = rewrittenBelow nodes (Suc k) ! j"
    proof (cases "standalone (nodes ! k)")
      case False
      then have "adjacentBelow nodes (Suc k) j = adjacentBelow nodes k j"
        unfolding adjacentBelow_def using less_Suc_eq by (auto simp: less_Suc_eq)
      with False r nth [OF j] show ?thesis by simp
    next
      case True
      consider (before) "0 < k" "j = k - 1" | (after) "j = k + 1" | (other) "j \<noteq> k + 1" "k = 0 \<or> j \<noteq> k - 1"
        by auto
      then show ?thesis
      proof cases
        case before
        then have adj: "adjacentBelow nodes (Suc k) j"
          using True assms by (auto simp: adjacentBelow_def)
        have "j < length nodes" "k - 1 < length nodes" using j before by auto
        with before True adj r nth [of "k - 1"] len show ?thesis
          by (auto simp: rewriteNode_idem)
      next
        case after
        then have adj: "adjacentBelow nodes (Suc k) j"
          using True by (auto simp: adjacentBelow_def)
        with after True r nth [OF j] len j show ?thesis
          by (auto simp: rewriteNode_idem)
      next
        case other
        then have "adjacentBelow nodes (Suc k) j = adjacentBelow nodes k j"
          unfolding adjacentBelow_def by (auto simp: less_Suc_eq)
        with other True r nth [OF j] len j show ?thesis
          by auto
      qed
    qed
  qed
qed

lemma rewrittenBelow_nth:
  "j < length nodes \<Longrightarrow>
   rewrittenBelow nodes k ! j = (if adjacentBelow nodes k j then rewriteNode (nodes ! j) else nodes ! j)"
  by (simp add: rewrittenBelow_def)

lemma flaggedBelow_iff:
  "flaggedBelow nodes k = (\<exists>j<length nodes. adjacentBelow nodes k j \<and> flagged (nodes ! j))"
  by (auto simp: flaggedBelow_def list_ex_iff)

lemma flaggedBelow_step:
  assumes "k < length nodes"
  shows "(flaggedBelow nodes k \<or>
          (standalone (nodes ! k) \<and>
           ((0 < k \<and> flagged (rewrittenBelow nodes k ! (k - 1))) \<or>
            (k + 1 < length nodes \<and> flagged (rewrittenBelow nodes k ! (k + 1)))))) =
         flaggedBelow nodes (Suc k)"
proof -
  have adj: "adjacentBelow nodes (Suc k) j =
      (adjacentBelow nodes k j \<or> (standalone (nodes ! k) \<and> (j + 1 = k \<or> j = k + 1)))"
    if "j < length nodes" for j
    using that assms unfolding adjacentBelow_def by (auto simp: less_Suc_eq)
  have fl: "flagged (rewrittenBelow nodes k ! j) = (flagged (nodes ! j) \<and> \<not> adjacentBelow nodes k j)"
    if "j < length nodes" for j
    using that by (simp add: rewrittenBelow_nth not_flagged_rewriteNode)
  show ?thesis
  proof
    assume l: "flaggedBelow nodes k \<or>
          (standalone (nodes ! k) \<and>
           ((0 < k \<and> flagged (rewrittenBelow nodes k ! (k - 1))) \<or>
            (k + 1 < length nodes \<and> flagged (rewrittenBelow nodes k ! (k + 1)))))"
    then consider (a) "flaggedBelow nodes k"
      | (b) "standalone (nodes ! k)" "0 < k" "flagged (rewrittenBelow nodes k ! (k - 1))"
      | (c) "standalone (nodes ! k)" "k + 1 < length nodes" "flagged (rewrittenBelow nodes k ! (k + 1))"
      by blast
    then show "flaggedBelow nodes (Suc k)"
    proof cases
      case a
      then obtain j where "j < length nodes" "adjacentBelow nodes k j" "flagged (nodes ! j)"
        by (auto simp: flaggedBelow_iff)
      then show ?thesis
        unfolding flaggedBelow_iff using adj by blast
    next
      case b
      with assms have "k - 1 < length nodes" "flagged (nodes ! (k - 1))"
        "adjacentBelow nodes (Suc k) (k - 1)"
        using fl [of "k - 1"] adj [of "k - 1"] by auto
      then show ?thesis unfolding flaggedBelow_iff by blast
    next
      case c
      then have "flagged (nodes ! (k + 1))" "adjacentBelow nodes (Suc k) (k + 1)"
        using fl [of "k + 1"] adj [of "k + 1"] by auto
      with c(2) show ?thesis unfolding flaggedBelow_iff by blast
    qed
  next
    assume "flaggedBelow nodes (Suc k)"
    then obtain j where j: "j < length nodes" "adjacentBelow nodes (Suc k) j" "flagged (nodes ! j)"
      by (auto simp: flaggedBelow_iff)
    show "flaggedBelow nodes k \<or>
          (standalone (nodes ! k) \<and>
           ((0 < k \<and> flagged (rewrittenBelow nodes k ! (k - 1))) \<or>
            (k + 1 < length nodes \<and> flagged (rewrittenBelow nodes k ! (k + 1)))))"
    proof (cases "adjacentBelow nodes k j")
      case True
      with j show ?thesis unfolding flaggedBelow_iff by blast
    next
      case False
      with j adj [of j] have s: "standalone (nodes ! k)" and "j + 1 = k \<or> j = k + 1"
        by auto
      then consider "0 < k" "j = k - 1" | "j = k + 1" by auto
      then show ?thesis
      proof cases
        case 1
        with j False fl [of j] s show ?thesis by auto
      next
        case 2
        with j False fl [of j] s show ?thesis by auto
      qed
    qed
  qed
qed

lemma operatorLoop_fix:
  assumes "context_fix ctx"
  shows "operatorLoop ctx nodes st =
     (rewrittenBelow nodes (length nodes), list_ex standalone nodes,
      st\<lparr>needsFix := needsFix st \<or> flaggedBelow nodes (length nodes)\<rparr>)"
proof -
  let ?I = "\<lambda>k acc. acc = (rewrittenBelow nodes k, list_ex standalone (take k nodes),
      st\<lparr>needsFix := needsFix st \<or> flaggedBelow nodes k\<rparr>)"
  have "?I (length nodes) (fold (operatorStep ctx) [0..<length nodes] (nodes, False, st))"
  proof (rule fold_upt_invariant)
    have "rewrittenBelow nodes 0 = nodes"
      by (intro nth_equalityI) (simp_all add: rewrittenBelow_nth adjacentBelow_def)
    moreover have "\<not> flaggedBelow nodes 0"
      by (simp add: flaggedBelow_iff adjacentBelow_def)
    ultimately show "?I 0 (nodes, False, st)" by simp
  next
    fix k a
    assume k: "k < length nodes" and a: "?I k a"
    have sk: "standalone (rewrittenBelow nodes k ! k) = standalone (nodes ! k)"
      using k by (simp add: rewrittenBelow_nth standalone_rewriteNode)
    have k': "k < length (rewrittenBelow nodes k)" using k by simp
    show "?I (Suc k) (operatorStep ctx k a)"
    proof (cases "standalone (nodes ! k)")
      case False
      then have "flaggedBelow nodes (Suc k) = flaggedBelow nodes k"
        using flaggedBelow_step [OF k] by simp
      moreover from False have "rewrittenBelow nodes (Suc k) = rewrittenBelow nodes k"
        using rewrittenBelow_step [OF k] by simp
      ultimately show ?thesis
        using False k by (simp add: a operatorStep_fix [OF assms k'] sk take_Suc_conv_app_nth)
    next
      case True
      have fb: "flaggedBelow nodes (Suc k) =
          (flaggedBelow nodes k \<or> (0 < k \<and> flagged (rewrittenBelow nodes k ! (k - 1))) \<or>
           (k + 1 < length nodes \<and> flagged (rewrittenBelow nodes k ! (k + 1))))"
        using flaggedBelow_step [OF k] True by auto
      show ?thesis
        using True k rewrittenBelow_step [OF k]
        by (simp add: a operatorStep_fix [OF assms k'] sk fb take_Suc_conv_app_nth)
    qed
  qed
  then show ?thesis by (simp add: operatorLoop_def)
qed

subsection \<open>A function without a standalone operator\<close>

lemma operatorLoop_no_standalone:
  assumes "\<not> list_ex standalone nodes"
  shows "operatorLoop ctx nodes st = (nodes, False, st)"
proof -
  have ns: "\<not> standalone (nodes ! j)" if "j < length nodes" for j
    using assms that by (auto simp: list_ex_iff)
  show ?thesis
  proof (cases "context_fix ctx")
    case False
    have "stepDiags ctx nodes j = []" if "j < length nodes" for j
      using ns that by (simp add: stepDiags_def)
    then have "loopDiags ctx nodes = []"
      by (simp add: loopDiags_def)
    with False assms show ?thesis by (simp add: operatorLoop_check)
  next
    case True
    have adj: "\<not> adjacentBelow nodes (length nodes) j" if "j < length nodes" for j
      using ns that by (auto simp: adjacentBelow_def)
    then have "rewrittenBelow nodes (length nodes) = nodes"
      by (intro nth_equalityI) (simp_all add: rewrittenBelow_nth)
    moreover have "\<not> flaggedBelow nodes (length nodes)"
      using adj by (auto simp: flaggedBelow_iff)
    ultimately show ?thesis using True assms by (simp add: operatorLoop_fix)
  qed
qed

lemma charAt_conv: "i < length v \<Longrightarrow> charAt v i = [v ! i]"
  by (simp add: charAt_def)

lemma search_operator_less: "search_operator v = Some i \<Longrightarrow> i < length v"
  by (induction v arbitrary: i) (auto split: if_splits)

subsection \<open>The walk\<close>

lemma walk_Cons:
  "walk ctx (n # ns) st =
     (case callback ctx n st of
        Inl e \<Rightarrow> Inl e
      | Inr (n1, st1) \<Rightarrow>
          (case descend ctx n1 st1 of
             Inl e \<Rightarrow> Inl e
           | Inr (n2, st2) \<Rightarrow>
               (case walk ctx ns st2 of
                  Inl e \<Rightarrow> Inl e
                | Inr (ns', st3) \<Rightarrow> Inr (n2 # ns', st3))))"
  by (simp add: descend_def split: sum.splits prod.splits)

declare walk.simps(2) [simp del]

lemma finalState_callback:
  "finalState (callback ctx n st) =
     (case n of
        Function v si kids \<Rightarrow>
          if FUNC_NAMES_REGEX_test ctx v then finalState (checkFunction ctx kids st) else st
      | _ \<Rightarrow> st)"
  by (auto simp: callback_def split: node.splits sum.splits prod.splits)

lemma walk_state_rel:
  assumes refl: "\<And>s. R s s" and trans: "\<And>a b c. R a b \<Longrightarrow> R b c \<Longrightarrow> R a c"
    and step: "\<And>nodes s. R s (finalState (checkFunction ctx nodes s))"
  shows "R st (finalState (walk ctx nodes st))"
  using step
proof (induction ctx nodes st rule: walk.induct)
  case (1 ctx st)
  then show ?case by (simp add: refl)
next
  case (2 ctx n ns st)
  note step = "2.prems"
  have cb: "R st (finalState (callback ctx n st))"
    using step [of st] refl [of st]
    by (simp add: finalState_callback split: node.splits)
  show ?case
  proof (cases "callback ctx n st")
    case (Inl e)
    with cb show ?thesis by (cases e) (simp add: walk_Cons)
  next
    case (Inr x)
    obtain n1 st1 where x: "x = (n1, st1)" by (cases x)
    with Inr cb have r1: "R st st1" by simp
    have d: "R st1 (finalState (descend ctx n1 st1))"
    proof (cases n1)
      case (Function v si kids)
      with "2.IH"(1) [OF Inr x [symmetric] Function step] show ?thesis
        by (auto simp: descend_def split: sum.splits)
    qed (simp_all add: descend_def refl)
    show ?thesis
    proof (cases "descend ctx n1 st1")
      case (Inl e)
      with d r1 Inr x show ?thesis
        by (cases e) (auto simp: walk_Cons intro: trans)
    next
      case (Inr y)
      obtain n2 st2 where y: "y = (n2, st2)" by (cases y)
      with Inr d r1 have r2: "R st st2" by (auto intro: trans)
      have "R st2 (finalState (walk ctx ns st2))"
        using "2.IH"(2) [OF \<open>callback ctx n st = Inr x\<close> x [symmetric] _ y [symmetric] step] Inr
        by (simp add: descend_def)
      with r2 have "R st (finalState (walk ctx ns st2))" by (rule trans)
      with Inr y x \<open>callback ctx n st = Inr x\<close> show ?thesis
        by (auto simp: walk_Cons split: sum.splits)
    qed
  qed
qed

lemma first_fix_reports:
  "context_fix ctx \<Longrightarrow>
   reports (finalState (checkForOperatorInFirstNode ctx nodes st)) = reports st"
  unfolding checkForOperatorInFirstNode_def Let_def
  by (auto split: list.splits option.splits)

lemma last_fix_reports:
  "context_fix ctx \<Longrightarrow>
   reports (finalState (checkForOperatorInLastNode ctx nodes st)) = reports st"
  unfolding checkForOperatorInLastNode_def Let_def
  by (auto split: list.splits option.splits)

lemma first_False_unchanged:
  "checkForOperatorInFirstNode ctx nodes st = Inr ((False, nodes'), st') \<Longrightarrow>
   nodes' = nodes \<and> st' = st"
  unfolding checkForOperatorInFirstNode_def Let_def
  by (auto split: list.splits option.splits if_splits)

lemma finalState_checkFunction:
  "finalState (checkFunction ctx nodes st) =
     (case operatorLoop ctx nodes st of
        (nodes1, found, st1) \<Rightarrow>
          if found then st1
          else
            (case checkForOperatorInFirstNode ctx nodes1 st1 of
               Inr ((False, nodes2), st2) \<Rightarrow> finalState (checkForOperatorInLastNode ctx nodes1 st1)
             | r \<Rightarrow> finalState r))"
  unfolding checkFunction_def
  by (auto split: prod.splits sum.splits bool.splits dest: first_False_unchanged)

lemma checkFunction_fix_reports:
  assumes "context_fix ctx"
  shows "reports (finalState (checkFunction ctx nodes st)) = reports st"
proof -
  obtain n1 f1 s1 where l: "operatorLoop ctx nodes st = (n1, f1, s1)"
    by (cases "operatorLoop ctx nodes st") auto
  then have r1: "reports s1 = reports st"
    using assms by (auto simp: operatorLoop_fix)
  show ?thesis
    using first_fix_reports [OF assms, of n1 s1] last_fix_reports [OF assms, of n1 s1] r1
    by (auto simp: finalState_checkFunction l split: sum.splits bool.splits)
qed

lemma walk_fix_reports:
  assumes "context_fix ctx"
  shows "reports (finalState (walk ctx nodes st)) = reports st"
  by (rule walk_state_rel [where R = "\<lambda>s s'. reports s' = reports s"])
    (simp_all add: checkFunction_fix_reports [OF assms])

lemma first_check_needsFix:
  "\<not> context_fix ctx \<Longrightarrow>
   needsFix (finalState (checkForOperatorInFirstNode ctx nodes st)) = needsFix st"
  unfolding checkForOperatorInFirstNode_def Let_def
  by (auto split: list.splits option.splits simp: complain_def)

lemma last_check_needsFix:
  "\<not> context_fix ctx \<Longrightarrow>
   needsFix (finalState (checkForOperatorInLastNode ctx nodes st)) = needsFix st"
  unfolding checkForOperatorInLastNode_def Let_def
  by (auto split: list.splits option.splits simp: complain_def)

lemma checkFunction_check_needsFix:
  assumes "\<not> context_fix ctx"
  shows "needsFix (finalState (checkFunction ctx nodes st)) = needsFix st"
proof -
  obtain n1 f1 s1 where l: "operatorLoop ctx nodes st = (n1, f1, s1)"
    by (cases "operatorLoop ctx nodes st") auto
  then have r1: "needsFix s1 = needsFix st"
    using assms by (auto simp: operatorLoop_check)
  show ?thesis
    using first_check_needsFix [OF assms, of n1 s1] last_check_needsFix [OF assms, of n1 s1] r1
    by (auto simp: finalState_checkFunction l split: sum.splits bool.splits)
qed

lemma walk_check_needsFix:
  assumes "\<not> context_fix ctx"
  shows "needsFix (finalState (walk ctx nodes st)) = needsFix st"
  by (rule walk_state_rel [where R = "\<lambda>s s'. needsFix s' = needsFix s"])
    (simp_all add: checkFunction_check_needsFix [OF assms])

lemma first_check_nodes:
  "\<not> context_fix ctx \<Longrightarrow> checkForOperatorInFirstNode ctx nodes st = Inr ((b, nodes'), st') \<Longrightarrow>
   nodes' = nodes"
  unfolding checkForOperatorInFirstNode_def Let_def
  by (simp split: list.splits option.splits if_splits)

lemma last_check_nodes:
  "\<not> context_fix ctx \<Longrightarrow> checkForOperatorInLastNode ctx nodes st = Inr ((b, nodes'), st') \<Longrightarrow>
   nodes' = nodes"
  unfolding checkForOperatorInLastNode_def Let_def
  by (simp split: list.splits option.splits if_splits)

lemma checkFunction_check_nodes:
  assumes "\<not> context_fix ctx" and "checkFunction ctx nodes st = Inr (nodes', st')"
  shows "nodes' = nodes"
proof -
  let ?s1 = "st\<lparr>reports := reports st @ loopDiags ctx nodes\<rparr>"
  have l: "operatorLoop ctx nodes st = (nodes, list_ex standalone nodes, ?s1)"
    using assms(1) by (rule operatorLoop_check)
  show ?thesis
  proof (cases "list_ex standalone nodes")
    case True
    with assms(2) l show ?thesis by (simp add: checkFunction_def)
  next
    case False
    show ?thesis
    proof (cases "checkForOperatorInFirstNode ctx nodes ?s1")
      case (Inl e)
      with assms(2) l False show ?thesis by (simp add: checkFunction_def)
    next
      case (Inr r)
      obtain b n2 s2 where r: "r = ((b, n2), s2)" by (cases r) auto
      with Inr assms(1) have n2: "n2 = nodes" by (auto dest: first_check_nodes)
      show ?thesis
      proof (cases b)
        case True
        with assms(2) l False Inr r n2 show ?thesis by (simp add: checkFunction_def)
      next
        case b: False
        with assms(2) l False Inr r n2
        obtain b3 where "checkForOperatorInLastNode ctx nodes s2 = Inr ((b3, nodes'), st')"
          by (auto simp: checkFunction_def split: sum.splits)
        with assms(1) show ?thesis by (auto dest: last_check_nodes)
      qed
    qed
  qed
qed

lemma walk_check_nodes:
  "\<not> context_fix ctx \<Longrightarrow> walk ctx nodes st = Inr (nodes', st') \<Longrightarrow> nodes' = nodes"
proof (induction ctx nodes st arbitrary: nodes' st' rule: walk.induct)
  case (1 ctx st)
  then show ?case by simp
next
  case (2 ctx n ns st)
  from "2.prems"(2) obtain n1 st1 n2 st2 ns' where
    cb: "callback ctx n st = Inr (n1, st1)" and d: "descend ctx n1 st1 = Inr (n2, st2)"
    and w: "walk ctx ns st2 = Inr (ns', st')" and res: "nodes' = n2 # ns'"
    by (auto simp: walk_Cons split: sum.splits)
  have n1: "n1 = n"
    using cb "2.prems"(1)
    by (auto simp: callback_def split: node.splits if_splits sum.splits dest: checkFunction_check_nodes)
  have "n2 = n1"
  proof (cases n1)
    case (Function v si kids)
    with d obtain kids' where k: "walk ctx kids st1 = Inr (kids', st2)" "n2 = Function v si kids'"
      by (auto simp: descend_def split: sum.splits)
    from "2.IH"(1) [OF cb refl Function "2.prems"(1) k(1)] k(2) Function show ?thesis by simp
  qed (use d in \<open>simp_all add: descend_def\<close>)
  moreover have "ns' = ns"
    using "2.IH"(2) [OF cb refl _ refl "2.prems"(1) w] d by (simp add: descend_def)
  ultimately show ?case using res n1 by simp
qed

subsection \<open>The two sign checks\<close>

lemma first_not_examined:
  "nodes \<noteq> [] \<Longrightarrow> \<not> firstExamined ctx nodes \<Longrightarrow>
   checkForOperatorInFirstNode ctx nodes st = Inr ((False, nodes), st)"
  unfolding checkForOperatorInFirstNode_def firstExamined_def
  by (auto split: list.splits option.splits)

lemma first_examined:
  assumes "firstExamined ctx nodes"
  shows "\<exists>nodes' st'. checkForOperatorInFirstNode ctx nodes st = Inr ((True, nodes'), st') \<and>
     length nodes' = length nodes \<and> tl nodes' = tl nodes \<and>
     reports st' = reports st @ newReports st st' \<and>
     \<not> list_ex (\<lambda>d. isSignMessage (message d)) (newReports st st')"
proof -
  from assms obtain n rest i where n: "nodes = n # rest" "isWord n"
    "isStandardSyntaxValue ctx (nodeValue n)" "search_operator (nodeValue n) = Some i" "0 < i"
    by (auto simp: firstExamined_def split: list.splits option.splits)
  then show ?thesis
    unfolding checkForOperatorInFirstNode_def Let_def newReports_def
    by (simp add: complain_def)
qed

lemma last_lookback:
  assumes "at_end nodes 1 = Some lastNode" "isWord lastNode"
    and "isOperator (at_end nodes 3) ALL_OPERATORS" "isSingleSpace (at_end nodes 2)"
  shows "checkForOperatorInLastNode ctx nodes st = Inr ((False, nodes), st)"
proof -
  from assms(3) have "length nodes \<noteq> 1"
    by (auto simp: at_end_def split: if_splits)
  with assms show ?thesis
    unfolding checkForOperatorInLastNode_def
    by (simp split: option.splits)
qed

lemma callback_no_standalone:
  assumes "FUNC_NAMES_REGEX_test ctx name" and "\<not> list_ex standalone nodes"
  shows "callback ctx (Function name fsi nodes) st =
     (case checkForOperatorInFirstNode ctx nodes st of
        Inl e \<Rightarrow> Inl e
      | Inr ((True, nodes2), st2) \<Rightarrow> Inr (Function name fsi nodes2, st2)
      | Inr ((False, nodes2), st2) \<Rightarrow>
          (case checkForOperatorInLastNode ctx nodes2 st2 of
             Inl e \<Rightarrow> Inl e
           | Inr ((b, nodes3), st3) \<Rightarrow> Inr (Function name fsi nodes3, st3)))"
  using assms
  by (simp add: callback_def checkFunction_def operatorLoop_no_standalone
      split: sum.splits prod.splits bool.splits)

subsection \<open>A function with a standalone operator\<close>

lemma callback_standalone:
  assumes "FUNC_NAMES_REGEX_test ctx name" and "list_ex standalone nodes"
  shows "callback ctx (Function name fsi nodes) st =
     (case operatorLoop ctx nodes st of
        (nodes', found, st') \<Rightarrow> Inr (Function name fsi nodes', st'))"
proof (cases "context_fix ctx")
  case True
  with assms show ?thesis
    by (simp add: callback_def checkFunction_def operatorLoop_fix)
next
  case False
  with assms show ?thesis
    by (simp add: callback_def checkFunction_def operatorLoop_check)
qed

lemma adjacentBelow_length:
  "j < length nodes \<Longrightarrow>
   adjacentBelow nodes (length nodes) j =
     (isOperator (nth_opt nodes (j + 1)) OPERATORS \<or>
      (0 < j \<and> isOperator (nth_opt nodes (j - 1)) OPERATORS))"
  by (auto simp: adjacentBelow_def nth_opt_def standalone_def)

lemma adjacent_has_standalone:
  "j < length nodes \<Longrightarrow> adjacentBelow nodes (length nodes) j \<Longrightarrow> list_ex standalone nodes"
  unfolding adjacentBelow_def list_ex_iff
  by (metis nth_mem)

lemma stepDiags_standalone:
  "d \<in> set (stepDiags ctx nodes i) \<Longrightarrow>
   standalone (nodes ! i) \<and> (d = sideDiag ctx (nodes ! i) Before \<or> d = sideDiag ctx (nodes ! i) After)"
  by (auto simp: stepDiags_def split: if_splits)

lemma loopDiags_standalone:
  "list_all (\<lambda>d. list_ex (\<lambda>n. standalone n \<and>
      (d = sideDiag ctx n Before \<or> d = sideDiag ctx n After)) nodes) (loopDiags ctx nodes)"
  unfolding list_all_iff list_ex_iff loopDiags_def
  by (auto dest!: stepDiags_standalone)

lemma rewriteNode_not_space: "\<not> isSpace n \<Longrightarrow> rewriteNode n = n"
  by (simp add: rewriteNode_def)

lemma search_newline_leading:
  "(take 1 v = [CHR 0x0A] \<or> take 2 v = [CHR 0x0D, CHR 0x0A]) = (search_newline v = Some 0)"
proof (cases v)
  case Nil
  then show ?thesis by simp
next
  case (Cons c cs)
  then show ?thesis by (cases cs) auto
qed

lemma space_not_standalone: "isSpace n \<Longrightarrow> \<not> standalone n"
  by (cases n) (simp_all add: standalone_def)

lemma list_ex_nth: "list_ex P xs = (\<exists>i<length xs. P (xs ! i))"
  unfolding list_ex_iff by (metis in_set_conv_nth)

lemma operatorLoop_replace_unflagged:
  assumes j: "j < length nodes" and old: "isSpace (nodes ! j)" "\<not> flagged (nodes ! j)"
    and new: "isSpace sp" "\<not> flagged sp"
  shows "operatorLoop ctx (nodes[j := sp]) st =
     (case operatorLoop ctx nodes st of (ns, found, s) \<Rightarrow> (ns[j := sp], found, s))"
proof -
  let ?nodes2 = "nodes[j := sp]"
  have sa: "standalone (?nodes2 ! i) = standalone (nodes ! i)" if "i < length nodes" for i
    using that old(1) new(1) j
    by (cases "i = j") (simp_all add: space_not_standalone)
  have fl: "flagged (?nodes2 ! i) = flagged (nodes ! i)" if "i < length nodes" for i
    using that old(2) new(2) j by (cases "i = j") auto
  have same: "?nodes2 ! i = nodes ! i" if "i < length nodes" "standalone (nodes ! i)" for i
  proof -
    have "i \<noteq> j" using that(2) old(1) by (auto dest: space_not_standalone)
    then show ?thesis by simp
  qed
  have ex: "list_ex standalone ?nodes2 = list_ex standalone nodes"
    unfolding list_ex_nth using sa by auto
  show ?thesis
  proof (cases "context_fix ctx")
    case False
    have sd: "stepDiags ctx ?nodes2 i = stepDiags ctx nodes i" if "i < length nodes" for i
      using that sa [of i] fl [of "i - 1"] fl [of "i + 1"] same [of i]
      by (auto simp: stepDiags_def)
    have "loopDiags ctx ?nodes2 = loopDiags ctx nodes"
      unfolding loopDiags_def length_list_update
      by (rule arg_cong [where f = concat], rule map_cong [OF refl]) (simp add: sd)
    with False ex j show ?thesis
      by (simp add: operatorLoop_check list_update_same_conv)
  next
    case True
    have adj: "adjacentBelow ?nodes2 (length nodes) i = adjacentBelow nodes (length nodes) i"
      if "i < length nodes" for i
      using that sa [of "i + 1"] sa [of "i - 1"] by (auto simp: adjacentBelow_def)
    have "rewrittenBelow ?nodes2 (length ?nodes2) = (rewrittenBelow nodes (length nodes))[j := sp]"
    proof (intro nth_equalityI)
      show "length (rewrittenBelow ?nodes2 (length ?nodes2)) =
          length ((rewrittenBelow nodes (length nodes))[j := sp])"
        by simp
    next
      fix i
      assume "i < length (rewrittenBelow ?nodes2 (length ?nodes2))"
      then have i: "i < length nodes" by simp
      show "rewrittenBelow ?nodes2 (length ?nodes2) ! i = (rewrittenBelow nodes (length nodes))[j := sp] ! i"
        using i j adj [OF i] new(2)
        by (cases "i = j") (simp_all add: rewrittenBelow_nth rewriteNode_unflagged)
    qed
    moreover have "flaggedBelow ?nodes2 (length ?nodes2) = flaggedBelow nodes (length nodes)"
      using adj fl by (auto simp: flaggedBelow_iff)
    ultimately show ?thesis
      using True ex by (simp add: operatorLoop_fix)
  qed
qed

subsection \<open>What each path does in fix mode\<close>

lemma search_newline_less: "search_newline v = Some i \<Longrightarrow> i < length v"
  by (induction v arbitrary: i) (auto split: if_splits)

lemma flagged_rewriteNode_changes: "flagged n \<Longrightarrow> rewriteNode n \<noteq> n"
proof (cases n)
  case (Space v si)
  assume f: "flagged n"
  show ?thesis
  proof (cases "search_newline v")
    case None
    with f Space show ?thesis by (auto simp: flagged_def rewriteNode_def rewriteSpace_def)
  next
    case (Some i)
    with f Space have "0 < i" by (auto simp: flagged_def)
    moreover from Some have "i < length v" by (rule search_newline_less)
    ultimately have "length (drop i v) \<noteq> length v" by simp
    then have "drop i v \<noteq> v" by metis
    with Some Space show ?thesis by (simp add: rewriteNode_def rewriteSpace_def)
  qed
qed (simp_all add: flagged_def)

lemma checkSpaceAroundOperator_fix:
  assumes "context_fix ctx"
  shows "checkSpaceAroundOperator ctx operatorNode spaceNode pos st =
     (if search_newline (nodeValue spaceNode) = Some 0 then (spaceNode, st)
      else (setValue spaceNode (rewriteSpace (nodeValue spaceNode)), st\<lparr>needsFix := True\<rparr>))"
  using assms by (simp add: checkSpaceAroundOperator_def rewriteSpace_def)

lemma first_fix_glued:
  assumes "context_fix ctx" and "isStandardSyntaxValue ctx v"
    and "search_operator v = Some i" "0 < i" "v ! (i - 1) \<noteq> CHR '' ''"
  shows "checkForOperatorInFirstNode ctx (Word v si # rest) st =
     Inr ((True,
           Word (if i + 1 < length v \<and> v ! (i + 1) \<noteq> CHR '' ''
                 then take i v @ '' '' @ [v ! i] @ '' '' @ drop (i + 1) v
                 else take i v @ '' '' @ drop i v) si # rest),
          st\<lparr>needsFix := True\<rparr>)"
proof -
  have i: "i < length v" using assms(3) by (rule search_operator_less)
  then have i1: "i - 1 < length v" by simp
  have ins: "insertCharAtIndex (insertCharAtIndex v (Suc i) '' '') i '' '' =
      take i v @ '' '' @ [v ! i] @ '' '' @ drop (Suc i) v"
    using i by (simp add: insertCharAtIndex_def take_Suc_conv_app_nth min_def)
  show ?thesis
  proof (cases "i + 1 < length v \<and> v ! (i + 1) \<noteq> CHR '' ''")
    case True
    with assms i i1 show ?thesis
      unfolding checkForOperatorInFirstNode_def Let_def
      by (simp add: charAt_conv ins del: append_Cons)
  next
    case False
    with assms i i1 show ?thesis
      unfolding checkForOperatorInFirstNode_def Let_def
      by (auto simp: charAt_def insertCharAtIndex_def)
  qed
qed

lemma last_fix_sign:
  assumes "context_fix ctx" and "length nodes \<noteq> 1"
    and "at_end nodes 1 = Some (Word v si)" "search_operator v = Some i"
    and "\<not> (isOperator (at_end nodes 3) ALL_OPERATORS \<and> isSingleSpace (at_end nodes 2))"
  shows "checkForOperatorInLastNode ctx nodes st =
     Inr ((True,
           nodes[length nodes - 1 :=
             Word (trim (insertCharAtIndex (trim (insertCharAtIndex v (i + 1) '' '')) i '' '')) si]),
          st\<lparr>needsFix := True\<rparr>)"
  using assms unfolding checkForOperatorInLastNode_def Let_def by simp

lemma operatorLoop_fix_flagged:
  assumes "context_fix ctx" and "j < length kids" and "flagged (kids ! j)"
    and "isOperator (nth_opt kids (j + 1)) OPERATORS \<or>
      (0 < j \<and> isOperator (nth_opt kids (j - 1)) OPERATORS)"
  shows "case operatorLoop ctx kids st of
       (kids', found, st') \<Rightarrow>
         kids' ! j = rewriteNode (kids ! j) \<and> kids' ! j \<noteq> kids ! j \<and>
         needsFix st' \<and> reports st' = reports st"
proof -
  have adj: "adjacentBelow kids (length kids) j"
    using assms(2,4) by (simp add: adjacentBelow_length)
  then have "flaggedBelow kids (length kids)"
    using assms(2,3) by (auto simp: flaggedBelow_iff)
  with adj assms show ?thesis
    by (simp add: operatorLoop_fix rewrittenBelow_nth flagged_rewriteNode_changes)
qed


section \<open>The leading sign glued on both sides (C1)\<close>

text \<open>
  C1, as amended. In a matched math function with no standalone operator whose first
  child is a standard-syntax word, let the first \<open>+\<close> or \<open>-\<close> of the word stand at an
  index \<open>i > 0\<close> with a character other than a space on each side. In check mode exactly
  two diagnostics are reported: "expected single space before", anchored at the absolute
  index of the operator (value offset + word offset + \<open>i\<close>), and "expected single space
  after", anchored one character further. In fix mode nothing is reported and a space is
  inserted on each side of the operator inside the text of the word.
\<close>

theorem leading_sign_glued_on_both_sides:
  assumes matched: "FUNC_NAMES_REGEX_test ctx name"
    and no_operator: "\<not> list_ex standalone (Word v si # rest)"
    and standard: "isStandardSyntaxValue ctx v"
    and first_sign: "search_operator v = Some i" "0 < i"
    and before: "v ! (i - 1) \<noteq> CHR '' ''"
    and after: "i + 1 < length v" "v ! (i + 1) \<noteq> CHR '' ''"
  shows "callback ctx (Function name fsi (Word v si # rest)) st =
     (if context_fix ctx then
        Inr (Function name fsi (Word (take i v @ '' '' @ [v ! i] @ '' '' @ drop (i + 1) v) si # rest),
             st\<lparr>needsFix := True\<rparr>)
      else
        Inr (Function name fsi (Word v si # rest),
             st\<lparr>reports := reports st @
                [\<lparr>message = ExpectedBefore [v ! i], index = valueIndex ctx + si + i,
                  endIndex = valueIndex ctx + si + i + 1\<rparr>,
                 \<lparr>message = ExpectedAfter [v ! i], index = valueIndex ctx + si + i + 1,
                  endIndex = valueIndex ctx + si + i + 2\<rparr>]\<rparr>))"
proof -
  have i: "i < length v" "i - 1 < length v" using after by auto
  have ins: "insertCharAtIndex (insertCharAtIndex v (Suc i) '' '') i '' '' =
      take i v @ '' '' @ [v ! i] @ '' '' @ drop (Suc i) v"
    using i by (simp add: insertCharAtIndex_def take_Suc_conv_app_nth min_def)
  have "checkForOperatorInFirstNode ctx (Word v si # rest) st =
     (if context_fix ctx then
        Inr ((True, Word (take i v @ '' '' @ [v ! i] @ '' '' @ drop (i + 1) v) si # rest),
             st\<lparr>needsFix := True\<rparr>)
      else
        Inr ((True, Word v si # rest),
             st\<lparr>reports := reports st @
                [\<lparr>message = ExpectedBefore [v ! i], index = valueIndex ctx + si + i,
                  endIndex = valueIndex ctx + si + i + 1\<rparr>,
                 \<lparr>message = ExpectedAfter [v ! i], index = valueIndex ctx + si + i + 1,
                  endIndex = valueIndex ctx + si + i + 2\<rparr>]\<rparr>))"
    using standard first_sign before after i
    unfolding checkForOperatorInFirstNode_def Let_def
    by (simp add: charAt_conv complain_def ins del: append_Cons) 
  then show ?thesis
    using matched no_operator
    by (simp add: callback_def checkFunction_def operatorLoop_no_standalone)
qed

theorem leading_sign_glued_on_both_sides_witness:
  "callback (exampleContext True) (Function ''calc'' 0 [Word ''1px+1px'' 5]) emptyState =
     Inr (Function ''calc'' 0 [Word ''1px + 1px'' 5], emptyState\<lparr>needsFix := True\<rparr>) \<and>
   callback (exampleContext False) (Function ''calc'' 0 [Word ''1px+1px'' 5]) emptyState =
     Inr (Function ''calc'' 0 [Word ''1px+1px'' 5],
          emptyState\<lparr>reports :=
            [\<lparr>message = ExpectedBefore ''+'', index = 13, endIndex = 14\<rparr>,
             \<lparr>message = ExpectedAfter ''+'', index = 14, endIndex = 15\<rparr>]\<rparr>) \<and>
   rule (exampleContext True) ''calc(1px+1px)'' = Inr (''calc(1px + 1px)'', [])"
proof -
  have m: "FUNC_NAMES_REGEX_test (exampleContext f) ''calc''" for f
    by (simp add: FUNC_NAMES_REGEX_test_def alternatives_def exampleContext_def toLower_def)
  have n: "\<not> list_ex standalone [Word ''1px+1px'' 5]"
    by (simp add: standalone_def OPERATORS_def)
  have s: "isStandardSyntaxValue (exampleContext f) ''1px+1px''" for f
    by (simp add: exampleContext_def)
  have i: "search_operator ''1px+1px'' = Some 3" "(0::nat) < 3"
    "''1px+1px'' ! (3 - 1) \<noteq> CHR '' ''" "3 + 1 < length ''1px+1px''"
    "''1px+1px'' ! (3 + 1) \<noteq> CHR '' ''"
    by simp_all
  have r: "rule (exampleContext True) ''calc(1px+1px)'' = Inr (''calc(1px + 1px)'', [])"
    by code_simp
  show ?thesis
    using leading_sign_glued_on_both_sides [OF m [of True] n s [of True] i, of 0 emptyState]
      leading_sign_glued_on_both_sides [OF m [of False] n s [of False] i, of 0 emptyState] r
    by (simp add: exampleContext_def emptyState_def)
qed

text \<open>
  C1 as stated has both diagnostics anchored at the operator. For \<open>calc(1px+1px)\<close> in a
  declaration whose value starts at offset 5, the word starts at 5 and the operator is
  its character 3, so the operator stands at 13; the second diagnostic is at 14.
\<close>

theorem after_anchor_counterexample:
  "rule (exampleContext False) ''calc(1px+1px)'' =
     Inr (''calc(1px+1px)'',
          [\<lparr>message = ExpectedBefore ''+'', index = 13, endIndex = 14\<rparr>,
           \<lparr>message = ExpectedAfter ''+'', index = 14, endIndex = 15\<rparr>]) \<and>
   tokenize ''calc(1px+1px)'' = [Function ''calc'' 0 [Word ''1px+1px'' 5]] \<and>
   search_operator ''1px+1px'' = Some 3 \<and>
   valueIndex (exampleContext False) + 5 + 3 \<noteq> 14"
  by code_simp

section \<open>A matched function without children (C2)\<close>

text \<open>
  C2 has a matched function with no children skipped silently. The value \<open>a-b calc()\<close>
  passes both tests on the text; the function \<open>calc\<close> has no children, no standalone
  operator is found, and \<open>checkForOperatorInFirstNode\<close> is called on the empty list,
  where the assertion on \<open>firstNode\<close> fails: the run ends with the error, in check mode
  and in fix mode alike.
\<close>

theorem empty_function_raises:
  "rule (exampleContext False) ''a-b calc()'' = Inl (AssertionFailed, []) \<and>
   rule (exampleContext True) ''a-b calc()'' = Inl (AssertionFailed, []) \<and>
   tokenize ''a-b calc()'' = [Word ''a-b'' 0, Space '' '' 3, Function ''calc'' 4 []] \<and>
   checkFunction (exampleContext False) [] emptyState = Inl (AssertionFailed, emptyState)"
  by code_simp

section \<open>Fix mode reports nothing (C10)\<close>

text \<open>
  C10. When fix mode is on, a run reports no diagnostic for any declaration value,
  whether it returns or ends with an exception. Each of the three paths leaves the
  reported diagnostics as they were and, where it finds a violation, changes the text of
  the token and sets \<open>needsFix\<close>: \<open>checkSpaceAroundOperator\<close> rewrites every space that
  does not start with a line break, so that the loop leaves a flagged space next to a
  standalone operator with another text; \<open>checkForOperatorInFirstNode\<close> inserts a space
  before a glued sign, and one after it when a character other than a space follows;
  \<open>checkForOperatorInLastNode\<close> inserts spaces around the sign and trims, unless the
  look-back exempts the sign.
\<close>

theorem fix_mode_reports_nothing:
  assumes "context_fix ctx"
  shows "diagnosticsOf (rule ctx declValue) = [] \<and>
         reports (snd (checkSpaceAroundOperator ctx operatorNode spaceNode pos st)) = reports st \<and>
         reports (finalState (checkForOperatorInFirstNode ctx nodes st)) = reports st \<and>
         reports (finalState (checkForOperatorInLastNode ctx nodes st)) = reports st \<and>
         checkSpaceAroundOperator ctx operatorNode spaceNode pos st =
           (if search_newline (nodeValue spaceNode) = Some 0 then (spaceNode, st)
            else (setValue spaceNode
                    (case search_newline (nodeValue spaceNode) of
                       None \<Rightarrow> '' ''
                     | Some k \<Rightarrow> drop k (nodeValue spaceNode)),
                  st\<lparr>needsFix := True\<rparr>)) \<and>
         (j < length kids \<and> flagged (kids ! j) \<and>
          (isOperator (nth_opt kids (j + 1)) OPERATORS \<or>
           (0 < j \<and> isOperator (nth_opt kids (j - 1)) OPERATORS)) \<longrightarrow>
          (case operatorLoop ctx kids st of
             (kids', found, st') \<Rightarrow>
               kids' ! j = rewriteNode (kids ! j) \<and> kids' ! j \<noteq> kids ! j \<and>
               needsFix st' \<and> reports st' = reports st)) \<and>
         (isStandardSyntaxValue ctx v \<and> search_operator v = Some i \<and> 0 < i \<and>
          v ! (i - 1) \<noteq> CHR '' '' \<longrightarrow>
          checkForOperatorInFirstNode ctx (Word v si # rest) st =
            Inr ((True,
                  Word (if i + 1 < length v \<and> v ! (i + 1) \<noteq> CHR '' ''
                        then take i v @ '' '' @ [v ! i] @ '' '' @ drop (i + 1) v
                        else take i v @ '' '' @ drop i v) si # rest),
                 st\<lparr>needsFix := True\<rparr>)) \<and>
         (length nodes \<noteq> 1 \<and> at_end nodes 1 = Some (Word w wi) \<and> search_operator w = Some m \<and>
          \<not> (isOperator (at_end nodes 3) ALL_OPERATORS \<and> isSingleSpace (at_end nodes 2)) \<longrightarrow>
          checkForOperatorInLastNode ctx nodes st =
            Inr ((True,
                  nodes[length nodes - 1 :=
                    Word (trim (insertCharAtIndex (trim (insertCharAtIndex w (m + 1) '' '')) m '' ''))
                      wi]),
                 st\<lparr>needsFix := True\<rparr>))"
proof -
  have "reports (finalState (walk ctx (valueParser ctx declValue) \<lparr>needsFix = False, reports = []\<rparr>)) = []"
    using walk_fix_reports [OF assms] by simp
  then have a: "diagnosticsOf (rule ctx declValue) = []"
    by (auto simp: rule_def diagnosticsOf_def split: sum.splits)
  have b: "reports (snd (checkSpaceAroundOperator ctx operatorNode spaceNode pos st)) = reports st"
    using assms by (simp add: checkSpaceAroundOperator_def Let_def)
  have c: "checkSpaceAroundOperator ctx operatorNode spaceNode pos st =
           (if search_newline (nodeValue spaceNode) = Some 0 then (spaceNode, st)
            else (setValue spaceNode
                    (case search_newline (nodeValue spaceNode) of
                       None \<Rightarrow> '' ''
                     | Some k \<Rightarrow> drop k (nodeValue spaceNode)),
                  st\<lparr>needsFix := True\<rparr>))"
    using checkSpaceAroundOperator_fix [OF assms] by (simp add: rewriteSpace_def)
  have d: "j < length kids \<and> flagged (kids ! j) \<and>
          (isOperator (nth_opt kids (j + 1)) OPERATORS \<or>
           (0 < j \<and> isOperator (nth_opt kids (j - 1)) OPERATORS)) \<longrightarrow>
          (case operatorLoop ctx kids st of
             (kids', found, st') \<Rightarrow>
               kids' ! j = rewriteNode (kids ! j) \<and> kids' ! j \<noteq> kids ! j \<and>
               needsFix st' \<and> reports st' = reports st)"
  proof (intro impI, elim conjE)
    assume "j < length kids" "flagged (kids ! j)"
      "isOperator (nth_opt kids (j + 1)) OPERATORS \<or>
       (0 < j \<and> isOperator (nth_opt kids (j - 1)) OPERATORS)"
    then show "case operatorLoop ctx kids st of
        (kids', found, st') \<Rightarrow>
          kids' ! j = rewriteNode (kids ! j) \<and> kids' ! j \<noteq> kids ! j \<and>
          needsFix st' \<and> reports st' = reports st"
      by (rule operatorLoop_fix_flagged [OF assms])
  qed
  have e: "isStandardSyntaxValue ctx v \<and> search_operator v = Some i \<and> 0 < i \<and>
          v ! (i - 1) \<noteq> CHR '' '' \<longrightarrow>
          checkForOperatorInFirstNode ctx (Word v si # rest) st =
            Inr ((True,
                  Word (if i + 1 < length v \<and> v ! (i + 1) \<noteq> CHR '' ''
                        then take i v @ '' '' @ [v ! i] @ '' '' @ drop (i + 1) v
                        else take i v @ '' '' @ drop i v) si # rest),
                 st\<lparr>needsFix := True\<rparr>)"
    by (intro impI, elim conjE) (rule first_fix_glued [OF assms])
  have f: "length nodes \<noteq> 1 \<and> at_end nodes 1 = Some (Word w wi) \<and> search_operator w = Some m \<and>
          \<not> (isOperator (at_end nodes 3) ALL_OPERATORS \<and> isSingleSpace (at_end nodes 2)) \<longrightarrow>
          checkForOperatorInLastNode ctx nodes st =
            Inr ((True,
                  nodes[length nodes - 1 :=
                    Word (trim (insertCharAtIndex (trim (insertCharAtIndex w (m + 1) '' '')) m '' ''))
                      wi]),
                 st\<lparr>needsFix := True\<rparr>)"
    by (intro impI, elim conjE) (rule last_fix_sign [OF assms])
  from a b first_fix_reports [OF assms, of nodes st] last_fix_reports [OF assms, of nodes st] c d e f
  show ?thesis by (intro conjI)
qed


theorem fix_mode_reports_nothing_witness:
  "rule (exampleContext True) ''calc(10px  + 2px) calc(1px+1px) calc(3px -2)'' =
     Inr (''calc(10px + 2px) calc(1px + 1px) calc(3px - 2)'', []) \<and>
   checkSpaceAroundOperator (exampleContext True) (Word ''+'' 11) (Space ''  '' 9) Before emptyState =
     (Space '' '' 9, emptyState\<lparr>needsFix := True\<rparr>) \<and>
   (case operatorLoop (exampleContext True)
           [Word ''10px'' 5, Space ''  '' 9, Word ''+'' 11, Space '' '' 12, Word ''2px'' 13]
           emptyState of
      (kids', found, st') \<Rightarrow> kids' ! 1 = Space '' '' 9 \<and> needsFix st' \<and> reports st' = []) \<and>
   checkForOperatorInFirstNode (exampleContext True) [Word ''1px+1px'' 5] emptyState =
     Inr ((True, [Word ''1px + 1px'' 5]), emptyState\<lparr>needsFix := True\<rparr>) \<and>
   checkForOperatorInLastNode (exampleContext True)
     [Word ''3px'' 5, Space '' '' 8, Word ''-2'' 9] emptyState =
     Inr ((True, [Word ''3px'' 5, Space '' '' 8, Word ''- 2'' 9]), emptyState\<lparr>needsFix := True\<rparr>)"
proof -
  let ?kids = "[Word ''10px'' 5, Space ''  '' 9, Word ''+'' 11, Space '' '' 12, Word ''2px'' 13]"
  let ?last = "[Word ''3px'' 5, Space '' '' 8, Word ''-2'' 9]"
  have h: "context_fix (exampleContext True)"
    by (simp add: exampleContext_def)
  note t = fix_mode_reports_nothing [OF h,
      where declValue = "''calc(10px  + 2px) calc(1px+1px) calc(3px -2)''"
        and operatorNode = "Word ''+'' 11" and spaceNode = "Space ''  '' 9" and pos = Before
        and st = emptyState and nodes = ?last and j = 1 and kids = ?kids
        and v = "''1px+1px''" and i = 3 and si = 5 and rest = "[]"
        and w = "''-2''" and wi = 9 and m = 0]
  have r: "rule (exampleContext True) ''calc(10px  + 2px) calc(1px+1px) calc(3px -2)'' =
      Inr (''calc(10px + 2px) calc(1px + 1px) calc(3px - 2)'', [])"
    by code_simp
  have p1: "(1::nat) < length ?kids \<and> flagged (?kids ! 1) \<and>
      (isOperator (nth_opt ?kids (1 + 1)) OPERATORS \<or>
       (0 < (1::nat) \<and> isOperator (nth_opt ?kids (1 - 1)) OPERATORS))"
    by (simp add: flagged_def nth_opt_def OPERATORS_def)
  have p2: "isStandardSyntaxValue (exampleContext True) ''1px+1px'' \<and>
      search_operator ''1px+1px'' = Some 3 \<and> (0::nat) < 3 \<and> ''1px+1px'' ! (3 - 1) \<noteq> CHR '' ''"
    by (simp add: exampleContext_def)
  have p3: "length ?last \<noteq> 1 \<and> at_end ?last 1 = Some (Word ''-2'' 9) \<and>
      search_operator ''-2'' = Some 0 \<and>
      \<not> (isOperator (at_end ?last 3) ALL_OPERATORS \<and> isSingleSpace (at_end ?last 2))"
    by (simp add: at_end_def ALL_OPERATORS_def OPERATORS_def)
  have c1: "checkSpaceAroundOperator (exampleContext True) (Word ''+'' 11) (Space ''  '' 9) Before
      emptyState = (Space '' '' 9, emptyState\<lparr>needsFix := True\<rparr>)"
    using t by simp
  have c2: "case operatorLoop (exampleContext True) ?kids emptyState of
      (kids', found, st') \<Rightarrow> kids' ! 1 = Space '' '' 9 \<and> needsFix st' \<and> reports st' = []"
    using t p1 by (auto simp: rewriteNode_def rewriteSpace_def emptyState_def split: prod.splits)
  have c3: "checkForOperatorInFirstNode (exampleContext True) [Word ''1px+1px'' 5] emptyState =
      Inr ((True, [Word ''1px + 1px'' 5]), emptyState\<lparr>needsFix := True\<rparr>)"
    using t p2 by simp
  have c4: "checkForOperatorInLastNode (exampleContext True) ?last emptyState =
      Inr ((True, [Word ''3px'' 5, Space '' '' 8, Word ''- 2'' 9]), emptyState\<lparr>needsFix := True\<rparr>)"
    using t p3 by (simp add: insertCharAtIndex_def trim_def isTrimmed_def)
  from r c1 c2 c3 c4 show ?thesis by (intro conjI)
qed

section \<open>Check mode leaves the value alone (C9)\<close>

text \<open>
  C9. When fix mode is off, a run changes no node of the tree and never sets
  \<open>needsFix\<close>, so the tree is not serialized and the value of the declaration is
  not written: the value after the run is the value before it, and the reported
  diagnostics are the only effect.
\<close>

theorem check_mode_leaves_value:
  assumes "\<not> context_fix ctx"
  shows "(case rule ctx declValue of Inl e \<Rightarrow> True | Inr (v, ds) \<Rightarrow> v = declValue) \<and>
         (case walk ctx nodes st of Inl e \<Rightarrow> True | Inr (nodes', st') \<Rightarrow> nodes' = nodes) \<and>
         needsFix (finalState (walk ctx nodes st)) = needsFix st"
proof -
  have "needsFix (finalState (walk ctx (valueParser ctx declValue)
          \<lparr>needsFix = False, reports = []\<rparr>)) = False"
    using walk_check_needsFix [OF assms] by simp
  then have "case rule ctx declValue of Inl e \<Rightarrow> True | Inr (v, ds) \<Rightarrow> v = declValue"
    by (auto simp: rule_def split: sum.splits if_splits)
  moreover have "case walk ctx nodes st of Inl e \<Rightarrow> True | Inr (nodes', st') \<Rightarrow> nodes' = nodes"
    using walk_check_nodes [OF assms] by (auto split: sum.splits)
  ultimately show ?thesis
    using walk_check_needsFix [OF assms] by simp
qed

theorem check_mode_leaves_value_witness:
  "(case rule (exampleContext False) ''calc(10px -2) calc(1px  + 2px)'' of
      Inl e \<Rightarrow> True
    | Inr (v, ds) \<Rightarrow> v = ''calc(10px -2) calc(1px  + 2px)'') \<and>
   rule (exampleContext False) ''calc(10px -2) calc(1px  + 2px)'' =
     Inr (''calc(10px -2) calc(1px  + 2px)'',
          [\<lparr>message = ExpectedOperatorBeforeSign ''-'', index = 15, endIndex = 16\<rparr>,
           \<lparr>message = ExpectedBefore ''+'', index = 29, endIndex = 30\<rparr>])"
proof -
  have h: "\<not> context_fix (exampleContext False)"
    by (simp add: exampleContext_def)
  have "rule (exampleContext False) ''calc(10px -2) calc(1px  + 2px)'' =
     Inr (''calc(10px -2) calc(1px  + 2px)'',
          [\<lparr>message = ExpectedOperatorBeforeSign ''-'', index = 15, endIndex = 16\<rparr>,
           \<lparr>message = ExpectedBefore ''+'', index = 29, endIndex = 30\<rparr>])"
    by code_simp
  with check_mode_leaves_value [OF h, of "''calc(10px -2) calc(1px  + 2px)''"]
  show ?thesis by blast
qed

section \<open>A sign after an operator and one space (C7)\<close>

text \<open>
  C7. In a matched math function with no standalone operator and at least two
  children, let the last child be a word with a \<open>+\<close> or \<open>-\<close>, the child two places
  before it a word whose whole text is \<open>*\<close>, \<open>/\<close>, \<open>+\<close> or \<open>-\<close>, and the child between
  them a space whose text is one space. Then the callback returns, the last child is
  left as it was, and no "expected an operator before sign" diagnostic is reported;
  when the leading-sign check returns false as well, nothing at all is reported or
  changed, as for \<open>calc(10px * -2)\<close>.
\<close>

theorem sign_after_operator_not_flagged:
  assumes matched: "FUNC_NAMES_REGEX_test ctx name"
    and no_operator: "\<not> list_ex standalone nodes"
    and two: "2 \<le> length nodes"
    and last_word: "at_end nodes 1 = Some (Word v si)" "search_operator v \<noteq> None"
    and third_last: "at_end nodes 3 = Some (Word w wi)" "w \<in> set [''*'', ''/'', ''+'', ''-'']"
    and second_last: "at_end nodes 2 = Some (Space '' '' pi)"
  shows "\<exists>b nodes' st'.
     checkForOperatorInFirstNode ctx nodes st = Inr ((b, nodes'), st') \<and>
     callback ctx (Function name fsi nodes) st = Inr (Function name fsi nodes', st') \<and>
     at_end nodes' 1 = Some (Word v si) \<and>
     reports st' = reports st @ newReports st st' \<and>
     \<not> list_ex (\<lambda>d. isSignMessage (message d)) (newReports st st') \<and>
     (b \<or> (nodes' = nodes \<and> st' = st))"
proof -
  have op: "isOperator (at_end nodes 3) ALL_OPERATORS"
    using third_last by (auto simp: ALL_OPERATORS_def OPERATORS_def)
  have sp: "isSingleSpace (at_end nodes 2)"
    using second_last by simp
  have lb: "checkForOperatorInLastNode ctx nodes s = Inr ((False, nodes), s)" for s
    using last_lookback [OF last_word(1) _ op sp] by simp
  have ne: "nodes \<noteq> []" using two by auto
  show ?thesis
  proof (cases "firstExamined ctx nodes")
    case False
    from first_not_examined [OF ne False]
    have f: "checkForOperatorInFirstNode ctx nodes st = Inr ((False, nodes), st)" .
    then have "callback ctx (Function name fsi nodes) st = Inr (Function name fsi nodes, st)"
      using callback_no_standalone [OF matched no_operator] lb by simp
    with f last_word(1) show ?thesis
      by (intro exI [of _ False] exI [of _ nodes] exI [of _ st]) (simp add: newReports_def)
  next
    case True
    from first_examined [OF True, of st] obtain nodes' st' where
      f: "checkForOperatorInFirstNode ctx nodes st = Inr ((True, nodes'), st')"
      and l: "length nodes' = length nodes" and t: "tl nodes' = tl nodes"
      and r: "reports st' = reports st @ newReports st st'"
        "\<not> list_ex (\<lambda>d. isSignMessage (message d)) (newReports st st')"
      by blast
    have "nodes' ! (length nodes' - 1) = nodes ! (length nodes - 1)"
      using l t two by (cases nodes; cases nodes') (auto simp: nth_Cons')
    with l last_word(1) have "at_end nodes' 1 = Some (Word v si)"
      by (auto simp: at_end_def split: if_splits)
    moreover have "callback ctx (Function name fsi nodes) st = Inr (Function name fsi nodes', st')"
      using callback_no_standalone [OF matched no_operator] f by simp
    ultimately show ?thesis using f r
      by (intro exI [of _ True] exI [of _ nodes'] exI [of _ st']) simp
  qed
qed

theorem sign_after_operator_not_flagged_witness:
  "callback (exampleContext False)
     (Function ''calc'' 0
        [Word ''10px'' 5, Space '' '' 9, Word ''*'' 10, Space '' '' 11, Word ''-2'' 12])
     emptyState =
   Inr (Function ''calc'' 0
          [Word ''10px'' 5, Space '' '' 9, Word ''*'' 10, Space '' '' 11, Word ''-2'' 12],
        emptyState) \<and>
   rule (exampleContext False) ''calc(10px * -2)'' = Inr (''calc(10px * -2)'', []) \<and>
   rule (exampleContext True) ''calc(10px * -2)'' = Inr (''calc(10px * -2)'', [])"
proof -
  let ?nodes = "[Word ''10px'' 5, Space '' '' 9, Word ''*'' 10, Space '' '' 11, Word ''-2'' 12]"
  have m: "FUNC_NAMES_REGEX_test (exampleContext False) ''calc''"
    by (simp add: FUNC_NAMES_REGEX_test_def alternatives_def exampleContext_def toLower_def)
  have n: "\<not> list_ex standalone ?nodes"
    by (simp add: standalone_def OPERATORS_def)
  have h: "2 \<le> length ?nodes" "at_end ?nodes 1 = Some (Word ''-2'' 12)"
    "search_operator ''-2'' \<noteq> None" "at_end ?nodes 3 = Some (Word ''*'' 10)"
    "''*'' \<in> set [''*'', ''/'', ''+'', ''-'']" "at_end ?nodes 2 = Some (Space '' '' 11)"
    by (simp_all add: at_end_def)
  have f: "checkForOperatorInFirstNode (exampleContext False) ?nodes emptyState =
      Inr ((False, ?nodes), emptyState)"
    by code_simp
  from sign_after_operator_not_flagged [OF m n h, of emptyState 0] f
  have "callback (exampleContext False) (Function ''calc'' 0 ?nodes) emptyState =
      Inr (Function ''calc'' 0 ?nodes, emptyState)"
    by auto
  moreover have "rule (exampleContext False) ''calc(10px * -2)'' = Inr (''calc(10px * -2)'', [])"
    by code_simp
  moreover have "rule (exampleContext True) ''calc(10px * -2)'' = Inr (''calc(10px * -2)'', [])"
    by code_simp
  ultimately show ?thesis by simp
qed

section \<open>The leading-sign check excludes the trailing-sign check (C6)\<close>

text \<open>
  C6. In a matched math function with children and no standalone operator: when the
  leading-sign check examines the first child (a word of standard syntax whose first
  \<open>+\<close> or \<open>-\<close> is not its first character), it returns true, flagged or not, and the
  result of the function is the result of that check alone: the children after the
  first are left as they were and no "expected an operator before sign" diagnostic is
  reported. Otherwise the leading-sign check returns false and has changed and reported
  nothing, and the result of the function is the result of the trailing-sign check. So
  at most one of the two checks reports or fixes.
\<close>

theorem leading_check_excludes_trailing_check:
  assumes matched: "FUNC_NAMES_REGEX_test ctx name"
    and no_operator: "\<not> list_ex standalone nodes"
    and nonempty: "nodes \<noteq> []"
  shows "if firstExamined ctx nodes then
       (\<exists>nodes' st'.
          checkForOperatorInFirstNode ctx nodes st = Inr ((True, nodes'), st') \<and>
          callback ctx (Function name fsi nodes) st = Inr (Function name fsi nodes', st') \<and>
          tl nodes' = tl nodes \<and>
          reports st' = reports st @ newReports st st' \<and>
          \<not> list_ex (\<lambda>d. isSignMessage (message d)) (newReports st st'))
     else
       checkForOperatorInFirstNode ctx nodes st = Inr ((False, nodes), st) \<and>
       callback ctx (Function name fsi nodes) st =
         (case checkForOperatorInLastNode ctx nodes st of
            Inl e \<Rightarrow> Inl e
          | Inr ((b, nodes'), st') \<Rightarrow> Inr (Function name fsi nodes', st'))"
proof (cases "firstExamined ctx nodes")
  case True
  from first_examined [OF True, of st] obtain nodes' st' where
    f: "checkForOperatorInFirstNode ctx nodes st = Inr ((True, nodes'), st')"
    and t: "tl nodes' = tl nodes"
    and r: "reports st' = reports st @ newReports st st'"
      "\<not> list_ex (\<lambda>d. isSignMessage (message d)) (newReports st st')"
    by blast
  have "callback ctx (Function name fsi nodes) st = Inr (Function name fsi nodes', st')"
    using callback_no_standalone [OF matched no_operator] f by simp
  with True f t r show ?thesis by auto
next
  case False
  from first_not_examined [OF nonempty False]
  have f: "checkForOperatorInFirstNode ctx nodes st = Inr ((False, nodes), st)" .
  with False callback_no_standalone [OF matched no_operator, of fsi st] show ?thesis
    by simp
qed

theorem leading_check_excludes_trailing_check_witness:
  "firstExamined (exampleContext False) [Word ''1px+1px'' 5, Space '' '' 12, Word ''-3'' 13] \<and>
   callback (exampleContext False)
     (Function ''calc'' 0 [Word ''1px+1px'' 5, Space '' '' 12, Word ''-3'' 13]) emptyState =
   Inr (Function ''calc'' 0 [Word ''1px+1px'' 5, Space '' '' 12, Word ''-3'' 13],
        emptyState\<lparr>reports :=
          [\<lparr>message = ExpectedBefore ''+'', index = 13, endIndex = 14\<rparr>,
           \<lparr>message = ExpectedAfter ''+'', index = 14, endIndex = 15\<rparr>]\<rparr>) \<and>
   checkForOperatorInLastNode (exampleContext False)
     [Word ''1px+1px'' 5, Space '' '' 12, Word ''-3'' 13] emptyState =
   Inr ((True, [Word ''1px+1px'' 5, Space '' '' 12, Word ''-3'' 13]),
        emptyState\<lparr>reports :=
          [\<lparr>message = ExpectedOperatorBeforeSign ''-'', index = 18, endIndex = 19\<rparr>]\<rparr>)"
proof -
  let ?nodes = "[Word ''1px+1px'' 5, Space '' '' 12, Word ''-3'' 13]"
  have m: "FUNC_NAMES_REGEX_test (exampleContext False) ''calc''"
    by (simp add: FUNC_NAMES_REGEX_test_def alternatives_def exampleContext_def toLower_def)
  have n: "\<not> list_ex standalone ?nodes"
    by (simp add: standalone_def OPERATORS_def)
  have ne: "?nodes \<noteq> []" by simp
  have e: "firstExamined (exampleContext False) ?nodes"
    by (simp add: firstExamined_def exampleContext_def)
  have f: "checkForOperatorInFirstNode (exampleContext False) ?nodes emptyState =
      Inr ((True, ?nodes),
        emptyState\<lparr>reports :=
          [\<lparr>message = ExpectedBefore ''+'', index = 13, endIndex = 14\<rparr>,
           \<lparr>message = ExpectedAfter ''+'', index = 14, endIndex = 15\<rparr>]\<rparr>)"
    by code_simp
  from leading_check_excludes_trailing_check [OF m n ne, of emptyState 0] e f
  have "callback (exampleContext False) (Function ''calc'' 0 ?nodes) emptyState =
      Inr (Function ''calc'' 0 ?nodes,
        emptyState\<lparr>reports :=
          [\<lparr>message = ExpectedBefore ''+'', index = 13, endIndex = 14\<rparr>,
           \<lparr>message = ExpectedAfter ''+'', index = 14, endIndex = 15\<rparr>]\<rparr>)"
    by auto
  moreover have "checkForOperatorInLastNode (exampleContext False) ?nodes emptyState =
      Inr ((True, ?nodes),
        emptyState\<lparr>reports :=
          [\<lparr>message = ExpectedOperatorBeforeSign ''-'', index = 18, endIndex = 19\<rparr>]\<rparr>)"
    by code_simp
  ultimately show ?thesis using e by simp
qed

section \<open>A standalone operator switches the sign checks off (C5)\<close>

text \<open>
  C5. In a matched math function with a standalone operator among its children, the
  result of the function is the result of the loop over the standalone operators:
  neither sign check runs. Every child that is not a space is left as it was, so a sign
  glued inside a word is not fixed, and every diagnostic reported is "expected single
  space before" or "expected single space after" for a standalone operator of the
  function, so a sign glued inside a word is not reported.
\<close>

theorem standalone_operator_skips_sign_checks:
  assumes matched: "FUNC_NAMES_REGEX_test ctx name"
    and has_operator: "list_ex standalone nodes"
  shows "\<exists>nodes' found st'.
     operatorLoop ctx nodes st = (nodes', found, st') \<and>
     callback ctx (Function name fsi nodes) st = Inr (Function name fsi nodes', st') \<and>
     length nodes' = length nodes \<and>
     (\<forall>j<length nodes. \<not> isSpace (nodes ! j) \<longrightarrow> nodes' ! j = nodes ! j) \<and>
     reports st' = reports st @ newReports st st' \<and>
     list_all (\<lambda>d. list_ex (\<lambda>n. standalone n \<and>
       (d = sideDiag ctx n Before \<or> d = sideDiag ctx n After)) nodes) (newReports st st')"
proof (cases "context_fix ctx")
  case True
  let ?nodes' = "rewrittenBelow nodes (length nodes)"
  let ?st' = "st\<lparr>needsFix := needsFix st \<or> flaggedBelow nodes (length nodes)\<rparr>"
  have l: "operatorLoop ctx nodes st = (?nodes', list_ex standalone nodes, ?st')"
    using True by (rule operatorLoop_fix)
  moreover have "callback ctx (Function name fsi nodes) st = Inr (Function name fsi ?nodes', ?st')"
    using callback_standalone [OF matched has_operator] l by simp
  moreover have "\<forall>j<length nodes. \<not> isSpace (nodes ! j) \<longrightarrow> ?nodes' ! j = nodes ! j"
    by (simp add: rewrittenBelow_nth rewriteNode_not_space)
  moreover have "newReports st ?st' = []"
    by (simp add: newReports_def)
  ultimately show ?thesis by simp
next
  case False
  let ?st' = "st\<lparr>reports := reports st @ loopDiags ctx nodes\<rparr>"
  have l: "operatorLoop ctx nodes st = (nodes, list_ex standalone nodes, ?st')"
    using False by (rule operatorLoop_check)
  moreover have "callback ctx (Function name fsi nodes) st = Inr (Function name fsi nodes, ?st')"
    using callback_standalone [OF matched has_operator] l by simp
  moreover have "newReports st ?st' = loopDiags ctx nodes"
    by (simp add: newReports_def)
  ultimately show ?thesis using loopDiags_standalone [of ctx nodes] by simp
qed

theorem standalone_operator_skips_sign_checks_witness:
  "callback (exampleContext False)
     (Function ''calc'' 0
        [Word ''1px+1px'' 5, Space ''  '' 12, Word ''+'' 14, Space '' '' 15, Word ''2px-3'' 16])
     emptyState =
   Inr (Function ''calc'' 0
          [Word ''1px+1px'' 5, Space ''  '' 12, Word ''+'' 14, Space '' '' 15, Word ''2px-3'' 16],
        emptyState\<lparr>reports := [\<lparr>message = ExpectedBefore ''+'', index = 19, endIndex = 20\<rparr>]\<rparr>) \<and>
   rule (exampleContext True) ''calc(1px+1px  + 2px-3)'' = Inr (''calc(1px+1px + 2px-3)'', [])"
proof -
  let ?nodes = "[Word ''1px+1px'' 5, Space ''  '' 12, Word ''+'' 14, Space '' '' 15, Word ''2px-3'' 16]"
  have m: "FUNC_NAMES_REGEX_test (exampleContext f) ''calc''" for f
    by (simp add: FUNC_NAMES_REGEX_test_def alternatives_def exampleContext_def toLower_def)
  have h: "list_ex standalone ?nodes"
    by (simp add: standalone_def OPERATORS_def)
  have l: "operatorLoop (exampleContext False) ?nodes emptyState =
      (?nodes, True,
       emptyState\<lparr>reports := [\<lparr>message = ExpectedBefore ''+'', index = 19, endIndex = 20\<rparr>]\<rparr>)"
    by code_simp
  from standalone_operator_skips_sign_checks [OF m [of False] h, of emptyState 0] l
  have "callback (exampleContext False) (Function ''calc'' 0 ?nodes) emptyState =
      Inr (Function ''calc'' 0 ?nodes,
        emptyState\<lparr>reports := [\<lparr>message = ExpectedBefore ''+'', index = 19, endIndex = 20\<rparr>]\<rparr>)"
    by auto
  moreover have "rule (exampleContext True) ''calc(1px+1px  + 2px-3)'' =
      Inr (''calc(1px+1px + 2px-3)'', [])"
    by code_simp
  ultimately show ?thesis by simp
qed

section \<open>The text that fix mode leaves in a space next to an operator (C3)\<close>

text \<open>
  C3, as amended. In fix mode, a space token next to a standalone operator in a matched
  math function is rewritten to its text from the first line break on, the line break
  included, when it has one (a line feed, or a carriage return followed by a line
  feed), and to one space when it has none. So the text before the first line break is
  removed and the line break itself stays; a text that starts with a line break, and a
  single space, are left as they are.
\<close>

theorem space_next_to_operator_rewritten:
  assumes fix_on: "context_fix ctx"
    and matched: "FUNC_NAMES_REGEX_test ctx name"
    and space: "j < length nodes" "nodes ! j = Space v si"
    and adjacent: "isOperator (nth_opt nodes (j + 1)) OPERATORS \<or>
      (0 < j \<and> isOperator (nth_opt nodes (j - 1)) OPERATORS)"
  shows "\<exists>nodes' st'.
     callback ctx (Function name fsi nodes) st = Inr (Function name fsi nodes', st') \<and>
     nodes' ! j = Space (case search_newline v of None \<Rightarrow> '' '' | Some i \<Rightarrow> drop i v) si"
proof -
  have adj: "adjacentBelow nodes (length nodes) j"
    using adjacent space(1) by (simp add: adjacentBelow_length)
  then have has: "list_ex standalone nodes"
    using space(1) by (rule adjacent_has_standalone [rotated])
  let ?nodes' = "rewrittenBelow nodes (length nodes)"
  let ?st' = "st\<lparr>needsFix := needsFix st \<or> flaggedBelow nodes (length nodes)\<rparr>"
  have "callback ctx (Function name fsi nodes) st = Inr (Function name fsi ?nodes', ?st')"
    using callback_standalone [OF matched has] operatorLoop_fix [OF fix_on] by simp
  moreover have "?nodes' ! j = Space (case search_newline v of None \<Rightarrow> '' '' | Some i \<Rightarrow> drop i v) si"
    using adj space by (simp add: rewrittenBelow_nth rewriteNode_def rewriteSpace_def)
  ultimately show ?thesis by blast
qed

theorem space_next_to_operator_rewritten_witness:
  "(\<exists>nodes' st'.
      callback (exampleContext True)
        (Function ''calc'' 0
           [Word ''1px'' 5, Space ''  \<newline>  '' 8, Word ''+'' 13, Space ''   '' 14, Word ''2px'' 17])
        emptyState = Inr (Function ''calc'' 0 nodes', st') \<and>
      nodes' ! 1 = Space ''\<newline>  '' 8) \<and>
   (\<exists>nodes' st'.
      callback (exampleContext True)
        (Function ''calc'' 0
           [Word ''1px'' 5, Space ''  \<newline>  '' 8, Word ''+'' 13, Space ''   '' 14, Word ''2px'' 17])
        emptyState = Inr (Function ''calc'' 0 nodes', st') \<and>
      nodes' ! 3 = Space '' '' 14) \<and>
   rule (exampleContext True) ''calc(1px  \<newline>  +   2px)'' = Inr (''calc(1px\<newline>  + 2px)'', [])"
proof -
  let ?nodes = "[Word ''1px'' 5, Space ''  \<newline>  '' 8, Word ''+'' 13, Space ''   '' 14, Word ''2px'' 17]"
  have f: "context_fix (exampleContext True)"
    by (simp add: exampleContext_def)
  have m: "FUNC_NAMES_REGEX_test (exampleContext f) ''calc''" for f
    by (simp add: FUNC_NAMES_REGEX_test_def alternatives_def exampleContext_def toLower_def)
  have a1: "isOperator (nth_opt ?nodes (1 + 1)) OPERATORS \<or>
      (0 < (1::nat) \<and> isOperator (nth_opt ?nodes (1 - 1)) OPERATORS)"
    by (simp add: nth_opt_def OPERATORS_def)
  have a3: "isOperator (nth_opt ?nodes (3 + 1)) OPERATORS \<or>
      (0 < (3::nat) \<and> isOperator (nth_opt ?nodes (3 - 1)) OPERATORS)"
    by (simp add: nth_opt_def OPERATORS_def)
  have j: "1 < length ?nodes" "?nodes ! 1 = Space ''  \<newline>  '' 8"
    "3 < length ?nodes" "?nodes ! 3 = Space ''   '' 14"
    by simp_all
  have "rule (exampleContext True) ''calc(1px  \<newline>  +   2px)'' = Inr (''calc(1px\<newline>  + 2px)'', [])"
    by code_simp
  then show ?thesis
    using space_next_to_operator_rewritten [OF f m [of True] j(1,2) a1, of 0 emptyState]
      space_next_to_operator_rewritten [OF f m [of True] j(3,4) a3, of 0 emptyState]
    by simp
qed

text \<open>
  C3 as stated has the first line break removed with the text before it. The space
  \<open>"  \n  "\<close> before the operator of \<open>calc(1px  \n  + 2px)\<close> has its first line break
  at index 2; fix mode leaves \<open>"\n  "\<close>, not the text after the line break.
\<close>

theorem newline_survives_counterexample:
  "search_newline ''  \<newline>  '' = Some 2 \<and>
   callback (exampleContext True)
     (Function ''calc'' 0
        [Word ''1px'' 5, Space ''  \<newline>  '' 8, Word ''+'' 13, Space '' '' 14, Word ''2px'' 15])
     emptyState =
   Inr (Function ''calc'' 0
          [Word ''1px'' 5, Space ''\<newline>  '' 8, Word ''+'' 13, Space '' '' 14, Word ''2px'' 15],
        emptyState\<lparr>needsFix := True\<rparr>) \<and>
   ''\<newline>  '' \<noteq> drop (Suc 2) ''  \<newline>  '' \<and>
   rule (exampleContext True) ''calc(1px  \<newline>  + 2px)'' = Inr (''calc(1px\<newline>  + 2px)'', [])"
  by code_simp

section \<open>A space that starts with a line break (C8)\<close>

text \<open>
  C8. Let a space token next to a standalone operator in a matched math function start
  with a line break (a line feed, or a carriage return followed by a line feed). Then
  \<open>checkSpaceAroundOperator\<close> returns on it at once, with no diagnostic and no change,
  in check mode and in fix mode; the function leaves the token as it is; and the run on
  the function ends in the same state (the same diagnostics, the same \<open>needsFix\<close>) and
  with the same other children as when the token is a single space: the token adds no
  diagnostic for its side of the operator.
\<close>

theorem newline_leading_space_exempt:
  assumes matched: "FUNC_NAMES_REGEX_test ctx name"
    and space: "j < length nodes" "nodes ! j = Space v si"
    and newline: "take 1 v = [CHR 0x0A] \<or> take 2 v = [CHR 0x0D, CHR 0x0A]"
    and adjacent: "isOperator (nth_opt nodes (j + 1)) OPERATORS \<or>
      (0 < j \<and> isOperator (nth_opt nodes (j - 1)) OPERATORS)"
  shows "checkSpaceAroundOperator ctx operatorNode (Space v si) pos st = (Space v si, st) \<and>
     (\<exists>nodes' st'.
        callback ctx (Function name fsi nodes) st = Inr (Function name fsi nodes', st') \<and>
        nodes' ! j = Space v si \<and>
        callback ctx (Function name fsi (nodes[j := Space '' '' si])) st =
          Inr (Function name fsi (nodes'[j := Space '' '' si]), st'))"
proof -
  have nl: "search_newline v = Some 0"
    using newline by (rule search_newline_leading [THEN iffD1])
  have adj: "adjacentBelow nodes (length nodes) j"
    using adjacent space(1) by (simp add: adjacentBelow_length)
  then have has: "list_ex standalone nodes"
    using space(1) by (rule adjacent_has_standalone [rotated])
  have unfl: "\<not> flagged (nodes ! j)" "isSpace (nodes ! j)"
    using space(2) nl by (simp_all add: flagged_def)
  have one: "isSpace (Space '' '' si)" "\<not> flagged (Space '' '' si)"
    by (simp_all add: flagged_def)
  let ?nodes1 = "nodes[j := Space '' '' si]"
  have has1: "list_ex standalone ?nodes1"
  proof -
    from has obtain i where i: "i < length nodes" "standalone (nodes ! i)"
      by (auto simp: list_ex_nth)
    with unfl(2) have "i \<noteq> j" by (auto dest: space_not_standalone)
    with i have "i < length ?nodes1 \<and> standalone (?nodes1 ! i)" by simp
    then show ?thesis unfolding list_ex_nth by blast
  qed
  obtain nodes' found st' where l: "operatorLoop ctx nodes st = (nodes', found, st')"
    by (cases "operatorLoop ctx nodes st") auto
  have c: "callback ctx (Function name fsi nodes) st = Inr (Function name fsi nodes', st')"
    using callback_standalone [OF matched has] l by simp
  have kept: "nodes' ! j = Space v si"
  proof (cases "context_fix ctx")
    case True
    with l have "nodes' = rewrittenBelow nodes (length nodes)"
      by (simp add: operatorLoop_fix)
    with space unfl show ?thesis
      by (simp add: rewrittenBelow_nth rewriteNode_unflagged)
  next
    case False
    with l space show ?thesis by (simp add: operatorLoop_check)
  qed
  have "operatorLoop ctx ?nodes1 st = (nodes'[j := Space '' '' si], found, st')"
    using operatorLoop_replace_unflagged [OF space(1) unfl(2) unfl(1) one, of ctx st] l by simp
  then have c1: "callback ctx (Function name fsi ?nodes1) st =
      Inr (Function name fsi (nodes'[j := Space '' '' si]), st')"
    using callback_standalone [OF matched has1] by simp
  have "checkSpaceAroundOperator ctx operatorNode (Space v si) pos st = (Space v si, st)"
    using nl by (simp add: checkSpaceAroundOperator_def)
  with c kept c1 show ?thesis by blast
qed

theorem newline_leading_space_exempt_witness:
  "checkSpaceAroundOperator (exampleContext False) (Word ''+'' 10) (Space ''\<newline>  '' 11) After
     emptyState = (Space ''\<newline>  '' 11, emptyState) \<and>
   callback (exampleContext False)
     (Function ''calc'' 0
        [Word ''1px'' 5, Space ''  '' 8, Word ''+'' 10, Space ''\<newline>  '' 11, Word ''2px'' 14])
     emptyState =
   Inr (Function ''calc'' 0
          [Word ''1px'' 5, Space ''  '' 8, Word ''+'' 10, Space ''\<newline>  '' 11, Word ''2px'' 14],
        emptyState\<lparr>reports := [\<lparr>message = ExpectedBefore ''+'', index = 15, endIndex = 16\<rparr>]\<rparr>) \<and>
   callback (exampleContext False)
     (Function ''calc'' 0
        [Word ''1px'' 5, Space ''  '' 8, Word ''+'' 10, Space '' '' 11, Word ''2px'' 14])
     emptyState =
   Inr (Function ''calc'' 0
          [Word ''1px'' 5, Space ''  '' 8, Word ''+'' 10, Space '' '' 11, Word ''2px'' 14],
        emptyState\<lparr>reports := [\<lparr>message = ExpectedBefore ''+'', index = 15, endIndex = 16\<rparr>]\<rparr>) \<and>
   rule (exampleContext True) ''calc(1px  +\<newline>  2px)'' = Inr (''calc(1px +\<newline>  2px)'', [])"
proof -
  let ?nodes = "[Word ''1px'' 5, Space ''  '' 8, Word ''+'' 10, Space ''\<newline>  '' 11, Word ''2px'' 14]"
  have m: "FUNC_NAMES_REGEX_test (exampleContext f) ''calc''" for f
    by (simp add: FUNC_NAMES_REGEX_test_def alternatives_def exampleContext_def toLower_def)
  have j: "3 < length ?nodes" "?nodes ! 3 = Space ''\<newline>  '' 11"
    by simp_all
  have n: "take 1 ''\<newline>  '' = [CHR 0x0A] \<or> take 2 ''\<newline>  '' = [CHR 0x0D, CHR 0x0A]"
    by simp
  have a: "isOperator (nth_opt ?nodes (3 + 1)) OPERATORS \<or>
      (0 < (3::nat) \<and> isOperator (nth_opt ?nodes (3 - 1)) OPERATORS)"
    by (simp add: nth_opt_def OPERATORS_def)
  have c: "callback (exampleContext False) (Function ''calc'' 0 ?nodes) emptyState =
      Inr (Function ''calc'' 0 ?nodes,
        emptyState\<lparr>reports := [\<lparr>message = ExpectedBefore ''+'', index = 15, endIndex = 16\<rparr>]\<rparr>)"
    by code_simp
  have r: "rule (exampleContext True) ''calc(1px  +\<newline>  2px)'' = Inr (''calc(1px +\<newline>  2px)'', [])"
    by code_simp
  from newline_leading_space_exempt [OF m [of False] j n a,
      of "Word ''+'' 10" After emptyState 0] c r
  show ?thesis by auto
qed

section \<open>Fixing twice (C4)\<close>

lemma first_examined_quiet:
  assumes "firstExamined ctx kids" and "\<not> leadingGlued kids"
  shows "checkForOperatorInFirstNode ctx kids st = Inr ((True, kids), st)"
proof -
  from assms(1) obtain n rest i where n: "kids = n # rest" "isWord n"
    "isStandardSyntaxValue ctx (nodeValue n)" "search_operator (nodeValue n) = Some i" "0 < i"
    by (auto simp: firstExamined_def split: list.splits option.splits)
  with assms(2) have "charAt (nodeValue n) (i - 1) = [] \<or> charAt (nodeValue n) (i - 1) = '' ''"
    by (auto simp: leadingGlued_def)
  with n show ?thesis
    unfolding checkForOperatorInFirstNode_def Let_def by auto
qed

lemma first_examined_glued_fix:
  assumes "context_fix ctx" and "firstExamined ctx kids" and "leadingGlued kids"
  shows "\<exists>kids'. checkForOperatorInFirstNode ctx kids st = Inr ((True, kids'), st\<lparr>needsFix := True\<rparr>)"
proof -
  from assms(2) obtain n rest i where n: "kids = n # rest" "isWord n"
    "isStandardSyntaxValue ctx (nodeValue n)" "search_operator (nodeValue n) = Some i" "0 < i"
    by (auto simp: firstExamined_def split: list.splits option.splits)
  with assms(3) have "charAt (nodeValue n) (i - 1) \<noteq> [] \<and> charAt (nodeValue n) (i - 1) \<noteq> '' ''"
    by (auto simp: leadingGlued_def)
  with n assms(1) show ?thesis
    unfolding checkForOperatorInFirstNode_def Let_def by auto
qed

lemma last_no_sign:
  assumes "kids \<noteq> []" and "\<not> trailingSign kids"
  shows "checkForOperatorInLastNode ctx kids st = Inr ((False, kids), st)"
proof (cases "length kids = 1")
  case True
  then show ?thesis by (simp add: checkForOperatorInLastNode_def)
next
  case False
  from assms(1) obtain l where l: "at_end kids 1 = Some l"
    by (cases kids) (auto simp: at_end_def)
  with assms(2) False show ?thesis
    unfolding checkForOperatorInLastNode_def trailingSign_def
    by (auto split: option.splits)
qed

lemma last_sign_fix:
  assumes "context_fix ctx" and "trailingSign kids"
  shows "\<exists>kids'. checkForOperatorInLastNode ctx kids st = Inr ((True, kids'), st\<lparr>needsFix := True\<rparr>)"
  using assms unfolding checkForOperatorInLastNode_def trailingSign_def Let_def
  by (auto split: option.splits)


lemma firstExamined_fix: "firstExamined (ctx\<lparr>context_fix := b\<rparr>) kids = firstExamined ctx kids"
  by (cases kids) (simp_all add: firstExamined_def)

lemma checkFunction_sign_quiet:
  assumes "\<not> list_ex standalone kids" and "signQuiet ctx kids"
  shows "checkFunction ctx kids st = Inr (kids, st)"
proof -
  from assms(2) have ne: "kids \<noteq> []" by (simp add: signQuiet_def)
  have l: "operatorLoop ctx kids st = (kids, False, st)"
    using assms(1) by (rule operatorLoop_no_standalone)
  show ?thesis
  proof (cases "firstExamined ctx kids")
    case True
    with assms(2) have "\<not> leadingGlued kids" by (simp add: signQuiet_def)
    from first_examined_quiet [OF True this] l show ?thesis
      by (simp add: checkFunction_def)
  next
    case False
    with assms(2) have "\<not> trailingSign kids" by (simp add: signQuiet_def)
    from last_no_sign [OF ne this] first_not_examined [OF ne False] l show ?thesis
      by (simp add: checkFunction_def)
  qed
qed

lemma quietChildren_iff:
  assumes "\<not> list_ex standalone kids"
  shows "quietChildren ctx kids = signQuiet ctx kids"
proof
  assume q: "quietChildren ctx kids"
  let ?c = "ctx\<lparr>context_fix := True\<rparr>"
  have fx: "context_fix ?c" by simp
  have l: "operatorLoop ?c kids emptyState = (kids, False, emptyState)"
    using assms by (rule operatorLoop_no_standalone)
  have ns: "\<not> needsFix emptyState" by (simp add: emptyState_def)
  have ne: "kids \<noteq> []"
  proof
    assume "kids = []"
    with q l show False
      by (simp add: quietChildren_def checkFunction_def checkForOperatorInFirstNode_def)
  qed
  show "signQuiet ctx kids"
  proof (cases "firstExamined ctx kids")
    case True
    then have e: "firstExamined ?c kids" by (simp add: firstExamined_fix)
    have "\<not> leadingGlued kids"
    proof
      assume "leadingGlued kids"
      from first_examined_glued_fix [OF fx e this, of emptyState] q l show False
        by (auto simp: quietChildren_def checkFunction_def emptyState_def)
    qed
    with True ne show ?thesis by (simp add: signQuiet_def)
  next
    case False
    then have e: "\<not> firstExamined ?c kids" by (simp add: firstExamined_fix)
    have "\<not> trailingSign kids"
    proof
      assume "trailingSign kids"
      from last_sign_fix [OF fx this, of emptyState] first_not_examined [OF ne e, of emptyState] q l
      show False
        by (auto simp: quietChildren_def checkFunction_def emptyState_def)
    qed
    with False ne show ?thesis by (simp add: signQuiet_def)
  qed
next
  assume "signQuiet ctx kids"
  then have "signQuiet (ctx\<lparr>context_fix := True\<rparr>) kids"
    by (simp add: signQuiet_def firstExamined_fix)
  from checkFunction_sign_quiet [OF assms this] show "quietChildren ctx kids"
    by (simp add: quietChildren_def)
qed

lemma at_end_map: "at_end (map f xs) k = map_option f (at_end xs k)"
  by (auto simp: at_end_def)

lemma signQuiet_map:
  assumes w: "\<And>n. isWord (f n) = isWord n" and sp: "\<And>n. isSpace (f n) = isSpace n"
    and v: "\<And>n. nodeValue (f n) = nodeValue n"
  shows "signQuiet ctx (map f kids) = signQuiet ctx kids"
proof -
  have op: "isOperator (map_option f x) ops = isOperator x ops" for x ops
    by (cases x) (simp_all add: w v)
  have ss: "isSingleSpace (map_option f x) = isSingleSpace x" for x
    by (cases x) (simp_all add: sp v)
  have fe: "firstExamined ctx (map f kids) = firstExamined ctx kids"
    by (cases kids) (simp_all add: firstExamined_def w v split: option.splits)
  have lg: "leadingGlued (map f kids) = leadingGlued kids"
    by (cases kids) (simp_all add: leadingGlued_def v split: option.splits)
  have ts: "trailingSign (map f kids) = trailingSign kids"
    by (cases "at_end kids 1") (simp_all add: trailingSign_def at_end_map op ss w v)
  show ?thesis
    by (simp add: signQuiet_def fe lg ts)
qed

lemma standalone_map:
  assumes "\<And>n. standalone (f n) = standalone n"
  shows "list_ex standalone (map f kids) = list_ex standalone kids"
  by (simp add: list_ex_iff assms)

lemma same_layer_signQuiet:
  assumes "map layer a = map layer b"
  shows "signQuiet ctx a = signQuiet ctx b"
proof -
  have "signQuiet ctx (map layer t) = signQuiet ctx t" for t
    by (rule signQuiet_map) (case_tac n; simp)+
  with assms show ?thesis by metis
qed

lemma signQuiet_stripIndex: "signQuiet ctx (map stripIndex kids) = signQuiet ctx kids"
  by (rule signQuiet_map) (case_tac n; simp)+


lemma standalone_layer: "standalone (layer n) = standalone n"
  by (cases n) (simp_all add: standalone_def)

lemma flagged_layer: "flagged (layer n) = flagged n"
  by (cases n) (simp_all add: flagged_def)

lemma same_layer_nth:
  assumes "map layer t' = map layer t" and "j < length t"
  shows "standalone (t' ! j) = standalone (t ! j)" "flagged (t' ! j) = flagged (t ! j)"
proof -
  from assms have "layer (t' ! j) = layer (t ! j)"
    by (metis length_map nth_map)
  then show "standalone (t' ! j) = standalone (t ! j)" "flagged (t' ! j) = flagged (t ! j)"
    by (metis standalone_layer, metis flagged_layer)
qed

lemma same_layer_standalone:
  assumes "map layer t' = map layer t"
  shows "list_ex standalone t' = list_ex standalone t"
proof -
  have "length t' = length t" using assms by (metis length_map)
  then show ?thesis
    unfolding list_ex_nth using same_layer_nth(1) [OF assms] by auto
qed

lemma same_layer_flaggedBelow:
  assumes "map layer t' = map layer t"
  shows "flaggedBelow t' (length t') = flaggedBelow t (length t)"
proof -
  have len: "length t' = length t" using assms by (metis length_map)
  have adj: "adjacentBelow t' (length t) j = adjacentBelow t (length t) j" if "j < length t" for j
    using that same_layer_nth(1) [OF assms, of "j + 1"] same_layer_nth(1) [OF assms, of "j - 1"] len
    by (auto simp: adjacentBelow_def)
  show ?thesis
    unfolding flaggedBelow_iff len using adj same_layer_nth(2) [OF assms] by auto
qed

lemma callback_layer:
  "callback ctx n st = Inr (n1, st1) \<Longrightarrow> layer n1 = layer n"
  by (auto simp: callback_def split: node.splits if_splits sum.splits)

lemma descend_layer:
  "descend ctx n1 st1 = Inr (n2, st2) \<Longrightarrow> layer n2 = layer n1"
  by (auto simp: descend_def split: node.splits sum.splits)

lemma walk_layer:
  "walk ctx t st = Inr (t', st') \<Longrightarrow> map layer t' = map layer t"
proof (induction ctx t st arbitrary: t' st' rule: walk.induct)
  case (1 ctx st)
  then show ?case by simp
next
  case (2 ctx n ns st)
  from "2.prems" obtain n1 st1 n2 st2 ns' where
    cb: "callback ctx n st = Inr (n1, st1)" and d: "descend ctx n1 st1 = Inr (n2, st2)"
    and w: "walk ctx ns st2 = Inr (ns', st')" and res: "t' = n2 # ns'"
    by (auto simp: walk_Cons split: sum.splits)
  have "map layer ns' = map layer ns"
    using "2.IH"(2) [OF cb refl _ refl w] d by (simp add: descend_def)
  with callback_layer [OF cb] descend_layer [OF d] res show ?case by simp
qed

lemma operatorLoop_settled:
  assumes "list_ex standalone kids" and "\<not> flaggedBelow kids (length kids)"
  shows "operatorLoop ctx kids st = (kids, True, st)"
proof -
  have nf: "\<not> flagged (kids ! j)" if "j < length kids" "adjacentBelow kids (length kids) j" for j
    using assms(2) that by (auto simp: flaggedBelow_iff)
  show ?thesis
  proof (cases "context_fix ctx")
    case True
    have "rewrittenBelow kids (length kids) = kids"
      by (intro nth_equalityI) (auto simp: rewrittenBelow_nth rewriteNode_unflagged nf)
    with True assms show ?thesis by (simp add: operatorLoop_fix)
  next
    case False
    have "stepDiags ctx kids i = []" if i: "i < length kids" for i
    proof (cases "standalone (kids ! i)")
      case s: True
      have "\<not> flagged (kids ! (i - 1))" if "0 < i"
        using nf [of "i - 1"] that i s by (auto simp: adjacentBelow_def)
      moreover have "\<not> flagged (kids ! (i + 1))" if "i + 1 < length kids"
        using nf [of "i + 1"] that i s by (auto simp: adjacentBelow_def)
      ultimately show ?thesis by (auto simp: stepDiags_def)
    qed (simp add: stepDiags_def)
    then have "loopDiags ctx kids = []"
      by (simp add: loopDiags_def)
    with False assms show ?thesis by (simp add: operatorLoop_check)
  qed
qed

lemma callback_settled:
  assumes "settledNode ctx n"
  shows "callback ctx n st = Inr (n, st)"
proof (cases n)
  case (Function v si kids)
  show ?thesis
  proof (cases "FUNC_NAMES_REGEX_test ctx v")
    case False
    with Function show ?thesis by (simp add: callback_def)
  next
    case m: True
    show ?thesis
    proof (cases "list_ex standalone kids")
      case True
      with assms Function m show ?thesis
        by (simp add: callback_def checkFunction_def operatorLoop_settled)
    next
      case False
      with assms Function m have "signQuiet ctx kids"
        by (simp add: quietChildren_iff)
      from checkFunction_sign_quiet [OF False this] Function m show ?thesis
        by (simp add: callback_def)
    qed
  qed
qed (simp_all add: callback_def)

lemma walk_settled:
  "list_all (settledNode ctx) t \<Longrightarrow> walk ctx t st = Inr (t, st)"
proof (induction ctx t st rule: walk.induct)
  case (1 ctx st)
  then show ?case by simp
next
  case (2 ctx n ns st)
  then have sn: "settledNode ctx n" and sns: "list_all (settledNode ctx) ns"
    by simp_all
  have cb: "callback ctx n st = Inr (n, st)"
    using sn by (rule callback_settled)
  have d: "descend ctx n st = Inr (n, st)"
  proof (cases n)
    case (Function v si kids)
    with sn have "list_all (settledNode ctx) kids" by simp
    from "2.IH"(1) [OF cb refl Function this] Function show ?thesis
      by (simp add: descend_def)
  qed (simp_all add: descend_def)
  have "walk ctx ns st = Inr (ns, st)"
    using "2.IH"(2) [OF cb refl _ refl sns] d by (simp add: descend_def)
  with cb d show ?case by (simp add: walk_Cons)
qed

lemma quietChildren_fix: "quietChildren (ctx\<lparr>context_fix := b\<rparr>) kids = quietChildren ctx kids"
  by (simp add: quietChildren_def)

lemma settledNode_check: "settledNode (ctx\<lparr>context_fix := b\<rparr>) n = settledNode ctx n"
  by (induction ctx n rule: settledNode.induct)
    (simp_all add: FUNC_NAMES_REGEX_test_def alternatives_def list_all_iff quietChildren_fix)

lemma standalone_stripIndex: "standalone (stripIndex n) = standalone n"
  by (cases n) (simp_all add: standalone_def)

lemma flagged_stripIndex: "flagged (stripIndex n) = flagged n"
  by (cases n) (simp_all add: flagged_def)

lemma flaggedBelow_stripIndex:
  "flaggedBelow (map stripIndex kids) (length kids) = flaggedBelow kids (length kids)"
  by (auto simp: flaggedBelow_iff adjacentBelow_def standalone_stripIndex flagged_stripIndex)

lemma quietChildren_stripIndex:
  assumes "\<not> list_ex standalone kids"
  shows "quietChildren ctx (map stripIndex kids) = quietChildren ctx kids"
proof -
  have "\<not> list_ex standalone (map stripIndex kids)"
    using assms by (simp add: list_ex_iff standalone_stripIndex)
  then show ?thesis
    using assms by (simp add: quietChildren_iff signQuiet_stripIndex)
qed

lemma settledNode_stripIndex: "settledNode ctx (stripIndex n) = settledNode ctx n"
proof (induction ctx n rule: settledNode.induct)
  case (1 ctx v si kids)
  have ex: "list_ex standalone (map stripIndex kids) = list_ex standalone kids"
    by (simp add: list_ex_iff standalone_stripIndex)
  have al: "list_all (settledNode ctx) (map stripIndex kids) = list_all (settledNode ctx) kids"
    using 1 by (simp add: list_all_iff)
  show ?case
  proof (cases "list_ex standalone kids")
    case True
    with ex al flaggedBelow_stripIndex [of kids] show ?thesis by simp
  next
    case False
    with ex al quietChildren_stripIndex [OF False, of ctx] show ?thesis by simp
  qed
qed simp_all

lemma settled_stripIndex_eq:
  assumes "map stripIndex a = map stripIndex b"
  shows "list_all (settledNode ctx) a = list_all (settledNode ctx) b"
proof -
  have "list_all (settledNode ctx) t = list_all (settledNode ctx) (map stripIndex t)" for t
    by (simp add: list_all_iff settledNode_stripIndex)
  with assms show ?thesis by metis
qed

lemma signFixFree_rewriteNode: "signFixFree ctx (rewriteNode n) = signFixFree ctx n"
  by (cases n) (simp_all add: rewriteNode_def)

lemma settledNode_rewriteNode: "settledNode ctx (rewriteNode n) = settledNode ctx n"
  by (cases n) (simp_all add: rewriteNode_def)

lemma list_all_rewrittenBelow:
  assumes "\<And>n. P (rewriteNode n) = P n"
  shows "list_all P (rewrittenBelow kids k) = list_all P kids"
  unfolding list_all_length by (simp add: rewrittenBelow_nth assms)

lemma rewrittenBelow_layer_facts:
  assumes "j < length kids"
  shows "standalone (rewrittenBelow kids k ! j) = standalone (kids ! j)"
    and "flagged (rewrittenBelow kids k ! j) = (flagged (kids ! j) \<and> \<not> adjacentBelow kids k j)"
  using assms by (simp_all add: rewrittenBelow_nth standalone_rewriteNode not_flagged_rewriteNode)

lemma rewrittenBelow_standalone:
  "list_ex standalone (rewrittenBelow kids k) = list_ex standalone kids"
  unfolding list_ex_nth by (auto simp: rewrittenBelow_layer_facts(1))

lemma rewrittenBelow_not_flagged:
  "\<not> flaggedBelow (rewrittenBelow kids (length kids)) (length kids)"
proof -
  have "adjacentBelow (rewrittenBelow kids (length kids)) (length kids) j =
      adjacentBelow kids (length kids) j" if "j < length kids" for j
    using that by (auto simp: adjacentBelow_def rewrittenBelow_layer_facts(1))
  then show ?thesis
    by (auto simp: flaggedBelow_iff rewrittenBelow_layer_facts(2))
qed

lemma callback_fix_free:
  assumes "context_fix ctx" and "signFixFree ctx n"
  shows "callback ctx n st =
     (case n of
        Function v si kids \<Rightarrow>
          if FUNC_NAMES_REGEX_test ctx v \<and> list_ex standalone kids then
            Inr (Function v si (rewrittenBelow kids (length kids)),
                 st\<lparr>needsFix := needsFix st \<or> flaggedBelow kids (length kids)\<rparr>)
          else Inr (n, st)
      | _ \<Rightarrow> Inr (n, st))"
proof (cases n)
  case (Function v si kids)
  show ?thesis
  proof (cases "FUNC_NAMES_REGEX_test ctx v")
    case False
    with Function show ?thesis by (simp add: callback_def)
  next
    case m: True
    show ?thesis
    proof (cases "list_ex standalone kids")
      case True
      with assms Function m show ?thesis
        by (simp add: callback_def checkFunction_def operatorLoop_fix)
    next
      case False
      with assms Function m have "signQuiet ctx kids"
        by (simp add: quietChildren_iff)
      from checkFunction_sign_quiet [OF False this] Function m False show ?thesis
        by (simp add: callback_def)
    qed
  qed
qed (simp_all add: callback_def)

lemma walk_fix_free:
  "context_fix ctx \<Longrightarrow> list_all (signFixFree ctx) t \<Longrightarrow>
   \<exists>t'. walk ctx t st = Inr (t', st\<lparr>needsFix := needsFix st \<or> \<not> list_all (settledNode ctx) t\<rparr>) \<and>
        list_all (settledNode ctx) t'"
proof (induction ctx t st rule: walk.induct)
  case (1 ctx st)
  then show ?case by simp
next
  case (2 ctx n ns st)
  note fix_on = "2.prems"(1)
  from "2.prems"(2) have dn: "signFixFree ctx n" and dns: "list_all (signFixFree ctx) ns"
    by simp_all
  obtain n1 st1 where cb: "callback ctx n st = Inr (n1, st1)"
    using callback_fix_free [OF fix_on dn, of st] by (auto split: node.splits if_splits)
  have "\<exists>n2. descend ctx n1 st1 = Inr (n2, st\<lparr>needsFix := needsFix st \<or> \<not> settledNode ctx n\<rparr>) \<and>
      settledNode ctx n2"
  proof (cases n)
    case (Function v si kids)
    let ?loop = "FUNC_NAMES_REGEX_test ctx v \<and> list_ex standalone kids"
    let ?k1 = "if ?loop then rewrittenBelow kids (length kids) else kids"
    have n1: "n1 = Function v si ?k1"
      and st1: "st1 = (if ?loop
          then st\<lparr>needsFix := needsFix st \<or> flaggedBelow kids (length kids)\<rparr> else st)"
      using cb callback_fix_free [OF fix_on dn, of st] Function by (auto split: if_splits)
    have dk: "list_all (signFixFree ctx) kids"
      using dn Function by simp
    then have dk1: "list_all (signFixFree ctx) ?k1"
      by (simp add: list_all_rewrittenBelow signFixFree_rewriteNode)
    from "2.IH"(1) [OF cb refl n1 fix_on dk1] obtain kids2 where
      w: "walk ctx ?k1 st1 = Inr (kids2, st1\<lparr>needsFix := needsFix st1 \<or> \<not> list_all (settledNode ctx) ?k1\<rparr>)"
      and s2: "list_all (settledNode ctx) kids2"
      by blast
    have sk1: "list_all (settledNode ctx) ?k1 = list_all (settledNode ctx) kids"
      by (simp add: list_all_rewrittenBelow settledNode_rewriteNode)
    have lay: "map layer kids2 = map layer ?k1"
      using walk_layer [OF w] .
    have ex2: "list_ex standalone kids2 = list_ex standalone kids"
      using same_layer_standalone [OF lay] by (simp add: rewrittenBelow_standalone)
    have top: "if list_ex standalone kids2 then \<not> flaggedBelow kids2 (length kids2)
        else quietChildren ctx kids2"
      if m: "FUNC_NAMES_REGEX_test ctx v"
    proof (cases "list_ex standalone kids")
      case True
      have "\<not> flaggedBelow kids2 (length kids2)"
        using same_layer_flaggedBelow [OF lay] m True rewrittenBelow_not_flagged [of kids] by simp
      with True ex2 show ?thesis by simp
    next
      case False
      with m dn Function have "signQuiet ctx kids"
        by (simp add: quietChildren_iff)
      moreover from lay False have "map layer kids2 = map layer kids" by simp
      ultimately have "signQuiet ctx kids2"
        using same_layer_signQuiet by blast
      with False ex2 show ?thesis by (simp add: quietChildren_iff)
    qed
    have sn: "settledNode ctx n =
        ((if ?loop then \<not> flaggedBelow kids (length kids) else True) \<and>
         list_all (settledNode ctx) kids)"
      using dn Function by auto
    have "descend ctx n1 st1 =
        Inr (Function v si kids2, st1\<lparr>needsFix := needsFix st1 \<or> \<not> list_all (settledNode ctx) kids\<rparr>)"
      using w n1 sk1 by (simp add: descend_def)
    moreover have "st1\<lparr>needsFix := needsFix st1 \<or> \<not> list_all (settledNode ctx) kids\<rparr> =
        st\<lparr>needsFix := needsFix st \<or> \<not> settledNode ctx n\<rparr>"
    proof -
      have b: "(needsFix st1 \<or> \<not> list_all (settledNode ctx) kids) =
          (needsFix st \<or> \<not> settledNode ctx n)"
        unfolding st1 sn by auto
      have "st1\<lparr>needsFix := x\<rparr> = st\<lparr>needsFix := x\<rparr>" for x
        unfolding st1 by simp
      then show ?thesis by (simp only: b)
    qed
    moreover have "settledNode ctx (Function v si kids2)"
      using top s2 by simp
    ultimately show ?thesis by simp
  next
    case (Word v si)
    with cb have "n1 = n" "st1 = st" by (simp_all add: callback_def)
    with Word show ?thesis by (simp add: descend_def)
  next
    case (Space v si)
    with cb have "n1 = n" "st1 = st" by (simp_all add: callback_def)
    with Space show ?thesis by (simp add: descend_def)
  next
    case (Other v si)
    with cb have "n1 = n" "st1 = st" by (simp_all add: callback_def)
    with Other show ?thesis by (simp add: descend_def)
  qed
  then obtain n2 where d: "descend ctx n1 st1 = Inr (n2, st\<lparr>needsFix := needsFix st \<or> \<not> settledNode ctx n\<rparr>)"
    and s2: "settledNode ctx n2"
    by blast
  let ?st2 = "st\<lparr>needsFix := needsFix st \<or> \<not> settledNode ctx n\<rparr>"
  from "2.IH"(2) [OF cb refl d [unfolded descend_def] refl fix_on dns] obtain ns' where
    w: "walk ctx ns ?st2 = Inr (ns', ?st2\<lparr>needsFix := needsFix ?st2 \<or> \<not> list_all (settledNode ctx) ns\<rparr>)"
    and sns: "list_all (settledNode ctx) ns'"
    by blast
  have "(needsFix ?st2 \<or> \<not> list_all (settledNode ctx) ns) =
      (needsFix st \<or> \<not> list_all (settledNode ctx) (n # ns))"
    by auto
  then have "?st2\<lparr>needsFix := needsFix ?st2 \<or> \<not> list_all (settledNode ctx) ns\<rparr> =
      st\<lparr>needsFix := needsFix st \<or> \<not> list_all (settledNode ctx) (n # ns)\<rparr>"
    by (simp only:) simp
  with cb d w s2 sns show ?case
    by (simp add: walk_Cons)
qed

lemma rule_settled:
  assumes "list_all (settledNode ctx) (valueParser ctx declValue)"
  shows "rule ctx declValue = Inr (declValue, [])"
  using walk_settled [OF assms] by (simp add: rule_def)

lemma rule_settled_check:
  assumes "list_all (settledNode ctx) (valueParser ctx declValue)"
  shows "rule (ctx\<lparr>context_fix := b\<rparr>) declValue = Inr (declValue, [])"
proof -
  have "list_all (settledNode (ctx\<lparr>context_fix := b\<rparr>)) (valueParser (ctx\<lparr>context_fix := b\<rparr>) declValue)"
    using assms by (simp add: list_all_iff settledNode_check)
  then show ?thesis by (rule rule_settled)
qed



text \<open>
  C4, as amended. Let fix mode be on and let the first run apply no glued-sign fix and
  raise no exception: in every matched math function of the value without a standalone
  operator, at any depth, the two sign checks change nothing. Let the tokenizer read the
  serialized fixed tree back as the same tokens up to their source offsets. Then the
  first run returns a value on which a second fix-mode run changes nothing and reports
  nothing, and on which a check-mode run reports nothing.
\<close>

theorem fix_idempotent_without_sign_fix:
  assumes fix_on: "context_fix ctx"
    and no_sign_fix: "list_all (signFixFree ctx) (valueParser ctx declValue)"
    and roundtrip: "map stripIndex (valueParser ctx (toString ctx (fixedTree ctx declValue))) =
      map stripIndex (fixedTree ctx declValue)"
  shows "\<exists>fixed. rule ctx declValue = Inr (fixed, []) \<and>
     rule ctx fixed = Inr (fixed, []) \<and>
     rule (ctx\<lparr>context_fix := False\<rparr>) fixed = Inr (fixed, [])"
proof -
  let ?t = "valueParser ctx declValue"
  let ?e = "\<lparr>needsFix = False, reports = []\<rparr>"
  from walk_fix_free [OF fix_on no_sign_fix, of ?e] obtain t' where
    w: "walk ctx ?t ?e = Inr (t', ?e\<lparr>needsFix := \<not> list_all (settledNode ctx) ?t\<rparr>)"
    and s': "list_all (settledNode ctx) t'"
    by auto
  have ft: "fixedTree ctx declValue = t'"
    using w by (simp add: fixedTree_def)
  show ?thesis
  proof (cases "list_all (settledNode ctx) ?t")
    case True
    then have "rule ctx declValue = Inr (declValue, [])"
      by (rule rule_settled)
    moreover have "rule (ctx\<lparr>context_fix := False\<rparr>) declValue = Inr (declValue, [])"
      using True by (rule rule_settled_check)
    ultimately show ?thesis by blast
  next
    case False
    show ?thesis
    proof (cases "OPERATOR_REGEX_test declValue \<and> FUNC_CALLS_REGEX_test ctx declValue")
      case g: False
      then have "rule ctx declValue = Inr (declValue, [])"
        by (auto simp: rule_def)
      moreover have "rule (ctx\<lparr>context_fix := False\<rparr>) declValue = Inr (declValue, [])"
        using g by (auto simp: rule_def FUNC_CALLS_REGEX_test_def alternatives_def)
      ultimately show ?thesis by blast
    next
      case g: True
      let ?fixed = "toString ctx t'"
      have r1: "rule ctx declValue = Inr (?fixed, [])"
        using g w False by (simp add: rule_def)
      have "list_all (settledNode ctx) (valueParser ctx ?fixed)"
        using settled_stripIndex_eq [OF roundtrip [unfolded ft], of ctx] s' by simp
      then have "rule ctx ?fixed = Inr (?fixed, [])"
        and "rule (ctx\<lparr>context_fix := False\<rparr>) ?fixed = Inr (?fixed, [])"
        by (rule rule_settled, rule rule_settled_check)
      with r1 show ?thesis by blast
    qed
  qed
qed

theorem fix_idempotent_without_sign_fix_witness:
  "rule (exampleContext True)
     ''calc(1px  +   2px) calc(10px * -2) abs(3px) calc(-1px) calc(3px  \<newline> - abs(1px\<newline>+ 2px))'' =
     Inr (''calc(1px + 2px) calc(10px * -2) abs(3px) calc(-1px) calc(3px\<newline> - abs(1px\<newline>+ 2px))'', []) \<and>
   rule (exampleContext True)
     ''calc(1px + 2px) calc(10px * -2) abs(3px) calc(-1px) calc(3px\<newline> - abs(1px\<newline>+ 2px))'' =
     Inr (''calc(1px + 2px) calc(10px * -2) abs(3px) calc(-1px) calc(3px\<newline> - abs(1px\<newline>+ 2px))'', []) \<and>
   rule (exampleContext False)
     ''calc(1px + 2px) calc(10px * -2) abs(3px) calc(-1px) calc(3px\<newline> - abs(1px\<newline>+ 2px))'' =
     Inr (''calc(1px + 2px) calc(10px * -2) abs(3px) calc(-1px) calc(3px\<newline> - abs(1px\<newline>+ 2px))'', [])"
proof -
  let ?v = "''calc(1px  +   2px) calc(10px * -2) abs(3px) calc(-1px) calc(3px  \<newline> - abs(1px\<newline>+ 2px))''"
  have f: "context_fix (exampleContext True)"
    by (simp add: exampleContext_def)
  have d: "list_all (signFixFree (exampleContext True)) (valueParser (exampleContext True) ?v)"
    by code_simp
  have r: "map stripIndex (valueParser (exampleContext True)
        (toString (exampleContext True) (fixedTree (exampleContext True) ?v))) =
      map stripIndex (fixedTree (exampleContext True) ?v)"
    by code_simp
  have c: "(exampleContext True)\<lparr>context_fix := False\<rparr> = exampleContext False"
    by (simp add: exampleContext_def)
  have e: "rule (exampleContext True) ?v =
      Inr (''calc(1px + 2px) calc(10px * -2) abs(3px) calc(-1px) calc(3px\<newline> - abs(1px\<newline>+ 2px))'', [])"
    by code_simp
  from fix_idempotent_without_sign_fix [OF f d r] e show ?thesis
    unfolding c by auto
qed

text \<open>
  C4 as stated covers every value. In \<open>calc(10px   -2)\<close> no operator stands alone; the
  trailing-sign fix turns the last word into \<open>- 2\<close> and leaves the three spaces before
  it. On the output \<open>calc(10px   - 2)\<close> the operator stands alone, so a second fix-mode
  run rewrites the three spaces to one, and a check-mode run reports them.
\<close>

theorem glued_sign_fix_counterexample:
  "rule (exampleContext True) ''calc(10px   -2)'' = Inr (''calc(10px   - 2)'', []) \<and>
   rule (exampleContext True) ''calc(10px   - 2)'' = Inr (''calc(10px - 2)'', []) \<and>
   ''calc(10px - 2)'' \<noteq> ''calc(10px   - 2)'' \<and>
   rule (exampleContext False) ''calc(10px   - 2)'' =
     Inr (''calc(10px   - 2)'', [\<lparr>message = ExpectedBefore ''-'', index = 17, endIndex = 18\<rparr>]) \<and>
   tokenize ''calc(10px   -2)'' =
     [Function ''calc'' 0 [Word ''10px'' 5, Space ''   '' 9, Word ''-2'' 12]] \<and>
   tokenize ''calc(10px   - 2)'' =
     [Function ''calc'' 0
        [Word ''10px'' 5, Space ''   '' 9, Word ''-'' 12, Space '' '' 13, Word ''2'' 14]]"
  by code_simp

end
